theory Spec2Isabelle
  imports Main "HOL-Library.AList" "HOL-Library.Char_ord" "HOL-Library.List_Lexorder"
    "HOL-Library.Product_Lexorder" "HOL-Library.Multiset"
begin

chapter \<open>The algebra module of kingdon: name tables, grades, Cayley table, blade cache\<close>

text \<open>
  A shallow embedding of \<^verbatim>\<open>kingdon/algebra.py\<close>. Python integers that index blades or count
  generators are natural numbers (the counts \<open>p\<close>, \<open>q\<close>, \<open>r\<close> are non-negative); \<open>start_index\<close>
  and the signature entries are integers. A \<^verbatim>\<open>dict\<close> whose iteration order the code uses is an
  association list in insertion order, where storing under an existing key keeps the key's
  position (\<open>AList.update\<close>). Exceptions are values of type \<open>error\<close>, returned as \<open>Inl\<close>.
  Strings compare as in Python, character by character by code point.
\<close>

section \<open>The program\<close>

subsection \<open>\<^verbatim>\<open>_sort_product\<close>\<close>

text \<open>
  \<^verbatim>\<open>
  swaps = 0
  if len(prod) > 1:
      prev_swap = 0
      while True:
          for i in range(len(prod) - 1):
              if prod[i] > prod[i + 1]:
                  swaps += 1
                  prod[i], prod[i + 1] = prod[i + 1], prod[i]
          if prev_swap == swaps:
              break
          else:
              prev_swap = swaps
  return swaps
  \<close>
  \<open>swap_step\<close> is the body of the \<^verbatim>\<open>for\<close> loop at position \<open>i\<close>, \<open>bubble_pass\<close> one run of the
  \<^verbatim>\<open>for\<close> loop, \<open>sort_loop\<close> the \<^verbatim>\<open>while\<close> loop. The list is changed in place, so the model
  returns it together with the count.
\<close>

fun swap_step :: "nat \<Rightarrow> 'a::linorder list \<times> nat \<Rightarrow> 'a list \<times> nat" where
  "swap_step i (prd, swaps) =
     (if prd ! i > prd ! (i + 1)
      then (prd[i := prd ! (i + 1), i + 1 := prd ! i], swaps + 1)
      else (prd, swaps))"

definition bubble_pass :: "'a::linorder list \<Rightarrow> nat \<Rightarrow> 'a list \<times> nat" where
  "bubble_pass prd swaps = fold swap_step [0..<length prd - 1] (prd, swaps)"

text \<open>
  The number of inversions of a list, the pairs of positions whose elements are out of order.
  It is the measure by which the \<^verbatim>\<open>while\<close> loop terminates: every exchange removes exactly one.
\<close>

fun inversions :: "'a::linorder list \<Rightarrow> nat" where
  "inversions [] = 0"
| "inversions (x # xs) = length (filter (\<lambda>y. y < x) xs) + inversions xs"

lemma filter_length_swap:
  assumes "Suc i < length xs"
  shows "length (filter P (xs[i := xs ! Suc i, Suc i := xs ! i])) = length (filter P xs)"
proof -
  have "mset (xs[i := xs ! Suc i, Suc i := xs ! i]) = mset xs"
    using assms by (simp add: mset_swap)
  then have "filter_mset P (mset (xs[i := xs ! Suc i, Suc i := xs ! i])) = filter_mset P (mset xs)"
    by simp
  then have "mset (filter P (xs[i := xs ! Suc i, Suc i := xs ! i])) = mset (filter P xs)"
    by simp
  then show ?thesis by (rule mset_eq_length)
qed

lemma inversions_swap:
  "Suc i < length xs \<Longrightarrow> xs ! Suc i < xs ! i \<Longrightarrow>
   Suc (inversions (xs[i := xs ! Suc i, Suc i := xs ! i])) = inversions xs"
proof (induction xs arbitrary: i)
  case Nil
  then show ?case by simp
next
  case (Cons x xs)
  show ?case
  proof (cases i)
    case 0
    with Cons.prems obtain y zs where xs: "xs = y # zs" by (cases xs) auto
    with 0 Cons.prems have "y < x" by simp
    with 0 xs \<open>y < x\<close> show ?thesis by auto
  next
    case (Suc j)
    with Cons.prems have j: "Suc j < length xs" "xs ! Suc j < xs ! j" by auto
    from Cons.IH[OF j] filter_length_swap[OF j(1)] Suc show ?thesis by simp
  qed
qed

lemma pass_invariant:
  "n \<le> length xs - 1 \<Longrightarrow> fold swap_step [0..<n] (xs, s) = (ys, t) \<Longrightarrow>
   length ys = length xs \<and> mset ys = mset xs \<and> inversions ys + t = inversions xs + s \<and> s \<le> t \<and>
   (t = s \<longrightarrow> ys = xs \<and> (\<forall>i<n. xs ! i \<le> xs ! Suc i))"
proof (induction n arbitrary: ys t)
  case 0
  then show ?case by simp
next
  case (Suc n)
  obtain zs u where f: "fold swap_step [0..<n] (xs, s) = (zs, u)" by (cases "fold swap_step [0..<n] (xs, s)")
  from Suc.prems have n: "n \<le> length xs - 1" "Suc n < length xs" by auto
  note IH = Suc.IH[OF n(1) f]
  from Suc.prems(2) f have st: "swap_step n (zs, u) = (ys, t)" by simp
  show ?case
  proof (cases "zs ! Suc n < zs ! n")
    case True
    with st have ys: "ys = zs[n := zs ! Suc n, Suc n := zs ! n]" and t: "t = Suc u" by auto
    from IH n have len: "Suc n < length zs" by simp
    have "mset ys = mset zs" unfolding ys using len by (simp add: mset_swap)
    moreover have "Suc (inversions ys) = inversions zs" unfolding ys using len True by (rule inversions_swap)
    ultimately show ?thesis using IH t ys by auto
  next
    case False
    with st have ys: "ys = zs" and t: "t = u" by auto
    show ?thesis using IH False unfolding ys t by (auto simp: less_Suc_eq)
  qed
qed

function sort_loop :: "'a::linorder list \<Rightarrow> nat \<Rightarrow> nat \<Rightarrow> 'a list \<times> nat" where
  "sort_loop prd swaps prev_swap =
     (case bubble_pass prd swaps of
        (prd', swaps') \<Rightarrow>
          if prev_swap = swaps' then (prd', swaps') else sort_loop prd' swaps' swaps')"
  by pat_completeness auto
termination
proof (relation "measure (\<lambda>(prd, swaps, prev_swap). 2 * inversions prd + (if prev_swap = swaps then 0 else 1))", goal_cases)
  case 1
  then show ?case by simp
next
  case (2 prd swaps prev_swap prd' swaps')
  then have "fold swap_step [0..<length prd - 1] (prd, swaps) = (prd', swaps')"
    by (simp add: bubble_pass_def)
  from pass_invariant[OF order_refl this] 2 show ?case by (auto split: if_splits)
qed

definition sort_product :: "'a::linorder list \<Rightarrow> 'a list \<times> nat" where
  "sort_product prd = (if length prd > 1 then sort_loop prd 0 0 else (prd, 0))"

declare sort_loop.simps [simp del]

subsection \<open>Exceptions and built-in functions\<close>

text \<open>
  The exceptions the modelled code can raise: \<^verbatim>\<open>TypeError('Unsupported signature.')\<close> from the
  constructor, \<^verbatim>\<open>ValueError\<close> from \<^verbatim>\<open>int(key, base=16)\<close>, \<^verbatim>\<open>IndexError\<close> from indexing the
  signature array, \<^verbatim>\<open>KeyError\<close> from a dictionary lookup.
\<close>

datatype error = TypeError string | ValueError | IndexError | KeyError

text \<open>
  Python's \<^verbatim>\<open>hex\<close>: a sign, the prefix \<^verbatim>\<open>0x\<close> and the lower-case hexadecimal digits without
  leading zeros; \<^verbatim>\<open>bin\<close> likewise with the prefix \<^verbatim>\<open>0b\<close> (only called on indices, which are
  not negative); \<open>bin_nat\<close> alone is \<^verbatim>\<open>format(n, 'b')\<close>. \<open>bit_length\<close> is \<^verbatim>\<open>int.bit_length\<close>.
\<close>

definition hexdigit :: "nat \<Rightarrow> char" where
  "hexdigit n = ''0123456789abcdef'' ! n"

fun hex_nat :: "nat \<Rightarrow> string" where
  "hex_nat n = (if n < 16 then [hexdigit n] else hex_nat (n div 16) @ [hexdigit (n mod 16)])"

declare hex_nat.simps [simp del]

definition hex :: "int \<Rightarrow> string" where
  "hex n = (if n < 0 then ''-0x'' @ hex_nat (nat (- n)) else ''0x'' @ hex_nat (nat n))"

fun bin_nat :: "nat \<Rightarrow> string" where
  "bin_nat n = (if n < 2 then [if n = 0 then CHR ''0'' else CHR ''1'']
     else bin_nat (n div 2) @ [if n mod 2 = 0 then CHR ''0'' else CHR ''1''])"

declare bin_nat.simps [simp del]

definition bin :: "nat \<Rightarrow> string" where
  "bin i = ''0b'' @ bin_nat i"

fun bit_length :: "nat \<Rightarrow> nat" where
  "bit_length n = (if n = 0 then 0 else Suc (bit_length (n div 2)))"

declare bit_length.simps [simp del]

text \<open>
  \<^verbatim>\<open>int(key, base=16)\<close> on a one-character string: the digits \<open>0\<close> to \<open>9\<close> and the letters
  \<open>a\<close> to \<open>f\<close> in either case have a value, any other character raises \<^verbatim>\<open>ValueError\<close>.
\<close>

definition int16 :: "char \<Rightarrow> error + int" where
  "int16 c = (let n = (of_char c :: nat) in
     if 48 \<le> n \<and> n \<le> 57 then Inr (int n - 48)
     else if 97 \<le> n \<and> n \<le> 102 then Inr (int n - 87)
     else if 65 \<le> n \<and> n \<le> 70 then Inr (int n - 55)
     else Inl ValueError)"

text \<open>
  Indexing a one-dimensional numpy array with an integer: an index from \<open>-len\<close> to \<open>-1\<close>
  counts from the end, an index outside \<open>-len \<dots> len - 1\<close> raises \<^verbatim>\<open>IndexError\<close>.
\<close>

definition np_getitem :: "int list \<Rightarrow> int \<Rightarrow> error + int" where
  "np_getitem a i =
     (if 0 \<le> i \<and> i < int (length a) then Inr (a ! nat i)
      else if - int (length a) \<le> i \<and> i < 0 then Inr (a ! nat (int (length a) + i))
      else Inl IndexError)"

text \<open>
  Building a \<^verbatim>\<open>dict\<close> from a sequence of key-value pairs (a dict comprehension, \<^verbatim>\<open>dict(...)\<close>):
  a later pair with the same key replaces the value and keeps the first position.
  \<open>getitem\<close> is \<^verbatim>\<open>d[k]\<close>. \<open>Counter\<close> is \<^verbatim>\<open>collections.Counter\<close> of a sequence: keys in
  order of first occurrence, each with its number of occurrences.
\<close>

definition dict_of :: "('k \<times> 'v) list \<Rightarrow> ('k \<times> 'v) list" where
  "dict_of items = fold (\<lambda>(k, v) acc. AList.update k v acc) items []"

definition getitem :: "('k \<times> 'v) list \<Rightarrow> 'k \<Rightarrow> error + 'v" where
  "getitem dict k = (case map_of dict k of None \<Rightarrow> Inl KeyError | Some v \<Rightarrow> Inr v)"

definition Counter :: "'a list \<Rightarrow> ('a \<times> nat) list" where
  "Counter xs = fold (\<lambda>x c. AList.update x (case map_of c x of None \<Rightarrow> 1 | Some n \<Rightarrow> n + 1) c) xs []"

subsection \<open>The name tables of \<^verbatim>\<open>Algebra.__post_init__\<close>\<close>

text \<open>
  \<^verbatim>\<open>
  self.bin2canon = {
      eJ: 'e' + ''.join(hex(num + self.start_index - 1)[2:] for ei in range(0, self.d)
                        if (num := (eJ & 2**ei).bit_length()))
      for eJ in range(2 ** self.d)
  }
  self.canon2bin = dict(sorted({c: b for b, c in self.bin2canon.items()}.items(),
                               key=lambda x: (len(x[0]), x[0])))
  \<close>
  \<open>blade_name\<close> is the name computed for one index \<open>eJ\<close>.
\<close>

definition blade_name :: "nat \<Rightarrow> int \<Rightarrow> nat \<Rightarrow> string" where
  "blade_name d start_index eJ =
     ''e'' @ concat (map (\<lambda>num. drop 2 (hex (int num + start_index - 1)))
                     (filter (\<lambda>num. num \<noteq> 0) (map (\<lambda>ei. bit_length (and eJ (2 ^ ei))) [0..<d])))"

definition bin2canon :: "nat \<Rightarrow> int \<Rightarrow> (nat \<times> string) list" where
  "bin2canon d start_index = map (\<lambda>eJ. (eJ, blade_name d start_index eJ)) [0..<2 ^ d]"

definition canon2bin :: "nat \<Rightarrow> int \<Rightarrow> (string \<times> nat) list" where
  "canon2bin d start_index =
     dict_of (sort_key (\<lambda>x. (length (fst x), fst x))
       (dict_of (map (\<lambda>(b, c). (c, b)) (bin2canon d start_index))))"

subsection \<open>\<^verbatim>\<open>Algebra._prepare_signs_and_cayley\<close>\<close>

text \<open>
  \<^verbatim>\<open>
  for eI, eJ in product(self.canon2bin, repeat=2):
      prod = list(eI[1:] + eJ[1:])
      swaps = _sort_product(prod) if len(prod) else 0
      swaps_arr[self.canon2bin[eI], self.canon2bin[eJ]] = swaps
      sign = -1 if swaps % 2 else 1
      count = Counter(prod)
      for key, value in count.items():
          if value // 2:
              sign *= self.signature[int(key, base=16) - self.start_index]
          count[key] = value % 2
      signs[self.canon2bin[eI], self.canon2bin[eJ]] = sign
      if sign:
          prod = ''.join(key*value for key, value in count.items())
          sign = '-' if sign == -1 else ''
          cayley[eI, eJ] = f'{sign}e{prod}'
      else:
          cayley[eI, eJ] = f'0'
  return swaps_arr, signs, cayley
  \<close>
  \<open>collapse\<close> is the inner \<^verbatim>\<open>for\<close> loop over the items of \<open>count\<close>, carrying \<open>sign\<close> and \<open>count\<close>;
  \<open>cayley_entry\<close> computes, for one pair, the swap count, the sign and the Cayley string;
  \<open>prepare_loop\<close> is the outer loop, which stores them. The two integer arrays, created by
  \<^verbatim>\<open>np.zeros\<close> and only ever indexed by values of \<open>canon2bin\<close>, are functions on index pairs
  that are 0 where nothing was stored; the \<open>cayley\<close> dict is a map.
\<close>

fun collapse :: "int list \<Rightarrow> int \<Rightarrow> (char \<times> nat) list \<Rightarrow> int \<times> (char \<times> nat) list
    \<Rightarrow> error + int \<times> (char \<times> nat) list" where
  "collapse signature start_index [] (sign, cnt) = Inr (sign, cnt)"
| "collapse signature start_index ((key, value) # items) (sign, cnt) =
     (if value div 2 \<noteq> 0
      then (case int16 key of
              Inl e \<Rightarrow> Inl e
            | Inr k \<Rightarrow>
               (case np_getitem signature (k - start_index) of
                  Inl e \<Rightarrow> Inl e
                | Inr s \<Rightarrow> collapse signature start_index items
                            (sign * s, AList.update key (value mod 2) cnt)))
      else collapse signature start_index items (sign, AList.update key (value mod 2) cnt))"

definition cayley_entry :: "int list \<Rightarrow> int \<Rightarrow> string \<Rightarrow> string \<Rightarrow> error + nat \<times> int \<times> string" where
  "cayley_entry signature start_index eI eJ =
     (let prd0 = drop 1 eI @ drop 1 eJ;
          (prd, swaps) = (if length prd0 \<noteq> 0 then sort_product prd0 else (prd0, 0));
          sign0 = (if swaps mod 2 \<noteq> 0 then - 1 else 1);
          cnt = Counter prd
      in case collapse signature start_index cnt (sign0, cnt) of
           Inl e \<Rightarrow> Inl e
         | Inr (sign, cnt') \<Rightarrow>
             Inr (swaps, sign,
                  if sign \<noteq> 0
                  then (if sign = - 1 then ''-'' else '''') @ ''e'' @
                       concat (map (\<lambda>(key, value). replicate value key) cnt')
                  else ''0''))"

record tables =
  swaps_arr :: "nat \<times> nat \<Rightarrow> int"
  signs :: "nat \<times> nat \<Rightarrow> int"
  cayley :: "string \<times> string \<rightharpoonup> string"

fun prepare_loop :: "int list \<Rightarrow> int \<Rightarrow> (string \<times> nat) list \<Rightarrow> (string \<times> string) list \<Rightarrow> tables
    \<Rightarrow> error + tables" where
  "prepare_loop signature start_index c2b [] t = Inr t"
| "prepare_loop signature start_index c2b ((eI, eJ) # pairs) t =
     (case getitem c2b eI of
        Inl e \<Rightarrow> Inl e
      | Inr i \<Rightarrow>
         (case getitem c2b eJ of
            Inl e \<Rightarrow> Inl e
          | Inr j \<Rightarrow>
             (case cayley_entry signature start_index eI eJ of
                Inl e \<Rightarrow> Inl e
              | Inr (swaps, sign, entry) \<Rightarrow>
                  prepare_loop signature start_index c2b pairs
                    \<lparr>swaps_arr = (swaps_arr t)((i, j) := int swaps),
                     signs = (signs t)((i, j) := sign),
                     cayley = (cayley t)((eI, eJ) \<mapsto> entry)\<rparr>)))"

definition prepare_signs_and_cayley :: "int list \<Rightarrow> int \<Rightarrow> (string \<times> nat) list \<Rightarrow> error + tables" where
  "prepare_signs_and_cayley signature start_index c2b =
     prepare_loop signature start_index c2b (List.product (map fst c2b) (map fst c2b))
       \<lparr>swaps_arr = (\<lambda>_. 0), signs = (\<lambda>_. 0), cayley = Map.empty\<rparr>"

subsection \<open>\<^verbatim>\<open>Algebra.indices_for_grade\<close>\<close>

text \<open>
  \<^verbatim>\<open>
  key = lambda i: bin(i).count('1')
  sorted_inds = sorted(range(len(self)), key=key)
  return {grade: tuple(inds) for grade, inds in groupby(sorted_inds, key=key)}
  \<close>
  \<open>groupby\<close> is \<^verbatim>\<open>itertools.groupby\<close>: it cuts the list into maximal runs of equal key.
\<close>

definition grade_key :: "nat \<Rightarrow> nat" where
  "grade_key i = count_list (bin i) CHR ''1''"

function groupby :: "('a \<Rightarrow> 'k) \<Rightarrow> 'a list \<Rightarrow> ('k \<times> 'a list) list" where
  "groupby key [] = []"
| "groupby key (x # xs) =
     (key x, x # takeWhile (\<lambda>y. key y = key x) xs) # groupby key (dropWhile (\<lambda>y. key y = key x) xs)"
  by pat_completeness auto
termination
  by (relation "measure (\<lambda>(key, xs). length xs)") (auto simp: length_dropWhile_le le_imp_less_Suc)

definition indices_for_grade :: "nat \<Rightarrow> (nat \<times> nat list) list" where
  "indices_for_grade d = dict_of (groupby grade_key (sort_key grade_key [0..<2 ^ d]))"

subsection \<open>\<^verbatim>\<open>BladeDict\<close>\<close>

text \<open>
  Modelled from the spec: the class \<^verbatim>\<open>MultiVector\<close> of \<^verbatim>\<open>kingdon.multivector\<close> is not among
  the sources. A multivector value records how it was made: \<open>MultiVector values grades\<close> for
  \<^verbatim>\<open>algebra.multivector(values=..., grades=...)\<close>, a coefficient list over the indices of the
  given grades, and \<open>fromkeysvalues keys values\<close> for \<^verbatim>\<open>MultiVector.fromkeysvalues\<close>, sparse
  coefficients at the given blade indices. For a single blade the spec asks for coefficient 1
  at that blade's index, scoped in graded mode to the index set of the blade's grade.
\<close>

datatype multivector =
  MultiVector (mv_values: "int list") (mv_grades: "nat list")
| fromkeysvalues (mv_keys: "nat list") (mv_vals: "int list")

text \<open>
  \<^verbatim>\<open>
  def __post_init__(self):
      if not self.lazy:
          for blade in self.algebra.canon2bin: self[blade]

  def __getitem__(self, blade):
      if blade not in self.blades:
          bin_blade = self.algebra.canon2bin[blade]
          if self.algebra.graded:
              g = format(bin_blade, 'b').count('1')
              indices = self.algebra.indices_for_grade[g]
              self.blades[blade] = self.algebra.multivector(
                  values=[int(bin_blade == i) for i in indices], grades=(g,))
          else:
              self.blades[blade] = MultiVector.fromkeysvalues(
                  self.algebra, keys=(bin_blade,), values=(1,))
      return self.blades[blade]
  \<close>
  The cache is changed by a lookup, so \<open>BladeDict_getitem\<close> returns the value together with
  the new state. Of the algebra it reads the dimension, \<open>canon2bin\<close> and the \<open>graded\<close> flag,
  which are passed as arguments.
\<close>

record bladedict =
  lazy :: bool
  blades :: "(string \<times> multivector) list"

definition BladeDict_getitem ::
  "nat \<Rightarrow> (string \<times> nat) list \<Rightarrow> bool \<Rightarrow> bladedict \<Rightarrow> string \<Rightarrow> error + multivector \<times> bladedict" where
  "BladeDict_getitem d c2b graded self blade =
     (case (if blade \<notin> fst ` set (blades self)
            then (case getitem c2b blade of
                    Inl e \<Rightarrow> Inl e
                  | Inr bin_blade \<Rightarrow>
                      if graded
                      then (let g = count_list (bin_nat bin_blade) CHR ''1'' in
                            case getitem (indices_for_grade d) g of
                              Inl e \<Rightarrow> Inl e
                            | Inr indices \<Rightarrow>
                                Inr (self\<lparr>blades := AList.update blade
                                  (MultiVector (map (\<lambda>i. if bin_blade = i then 1 else 0) indices) [g])
                                  (blades self)\<rparr>))
                      else Inr (self\<lparr>blades := AList.update blade
                                  (fromkeysvalues [bin_blade] [1]) (blades self)\<rparr>))
            else Inr self) of
        Inl e \<Rightarrow> Inl e
      | Inr self' \<Rightarrow>
          (case getitem (blades self') blade of Inl e \<Rightarrow> Inl e | Inr mv \<Rightarrow> Inr (mv, self')))"

fun BladeDict_populate ::
  "nat \<Rightarrow> (string \<times> nat) list \<Rightarrow> bool \<Rightarrow> string list \<Rightarrow> bladedict \<Rightarrow> error + bladedict" where
  "BladeDict_populate d c2b graded [] self = Inr self"
| "BladeDict_populate d c2b graded (blade # rest) self =
     (case BladeDict_getitem d c2b graded self blade of
        Inl e \<Rightarrow> Inl e
      | Inr (mv, self') \<Rightarrow> BladeDict_populate d c2b graded rest self')"

definition BladeDict_init ::
  "nat \<Rightarrow> (string \<times> nat) list \<Rightarrow> bool \<Rightarrow> bool \<Rightarrow> error + bladedict" where
  "BladeDict_init d c2b graded lazy_flag =
     (let self = \<lparr>lazy = lazy_flag, blades = []\<rparr> in
      if \<not> lazy self then BladeDict_populate d c2b graded (map fst c2b) self else Inr self)"

subsection \<open>\<^verbatim>\<open>Algebra.__post_init__\<close>\<close>

text \<open>
  \<^verbatim>\<open>
  if self.signature is not None:
      counts = Counter(self.signature)
      self.p, self.q, self.r = counts[1], counts[-1], counts[0]
      if self.p + self.q + self.r != len(self.signature):
          raise TypeError('Unsupported signature.')
      self.signature = np.array(self.signature)
  else:
      if self.r == 1:  # PGA, so put r first.
          self.signature = np.array([0] * self.r + [1] * self.p + [-1] * self.q)
      else:
          self.signature = np.array([1] * self.p + [-1] * self.q + [0] * self.r)
  if self.start_index is None:
      self.start_index = 0 if self.r == 1 else 1
  self.d = self.p + self.q + self.r
  ... bin2canon, canon2bin ...
  self.swaps, self.signs, self.cayley = self._prepare_signs_and_cayley()
  self.blades = BladeDict(algebra=self, lazy=self.d > 6)
  self.pss = self.blades[self.bin2canon[2 ** self.d - 1]]
  \<close>
  \<open>Algebra_init\<close> is the first \<^verbatim>\<open>if\<close>, \<open>Algebra_setup\<close> everything after it. The fields of the
  record are the attributes of the same name. The options \<open>cse\<close>, \<open>numba\<close> and \<open>simplify\<close>,
  the pretty-printed names and the operator dictionaries, created last from classes that are
  not among the sources, take no part in what is modelled and are left out.
\<close>

record algebra =
  alg_p :: nat
  alg_q :: nat
  alg_r :: nat
  alg_d :: nat
  alg_signature :: "int list"
  alg_start_index :: int
  alg_bin2canon :: "(nat \<times> string) list"
  alg_canon2bin :: "(string \<times> nat) list"
  alg_graded :: bool
  alg_swaps :: "nat \<times> nat \<Rightarrow> int"
  alg_signs :: "nat \<times> nat \<Rightarrow> int"
  alg_cayley :: "string \<times> string \<rightharpoonup> string"
  alg_blades :: bladedict
  alg_pss :: multivector

definition Algebra_setup :: "nat \<Rightarrow> nat \<Rightarrow> nat \<Rightarrow> int list \<Rightarrow> int option \<Rightarrow> bool \<Rightarrow> error + algebra" where
  "Algebra_setup p q r signature start_index graded =
     (let start_index = (case start_index of None \<Rightarrow> (if r = 1 then 0 else 1) | Some s \<Rightarrow> s);
          d = p + q + r;
          b2c = bin2canon d start_index;
          c2b = canon2bin d start_index
      in case prepare_signs_and_cayley signature start_index c2b of
           Inl e \<Rightarrow> Inl e
         | Inr t \<Rightarrow>
            (case BladeDict_init d c2b graded (d > 6) of
               Inl e \<Rightarrow> Inl e
             | Inr bd \<Rightarrow>
                (case getitem b2c (2 ^ d - 1) of
                   Inl e \<Rightarrow> Inl e
                 | Inr pss_name \<Rightarrow>
                    (case BladeDict_getitem d c2b graded bd pss_name of
                       Inl e \<Rightarrow> Inl e
                     | Inr (mv, bd') \<Rightarrow>
                         Inr \<lparr>alg_p = p, alg_q = q, alg_r = r, alg_d = d,
                              alg_signature = signature, alg_start_index = start_index,
                              alg_bin2canon = b2c, alg_canon2bin = c2b, alg_graded = graded,
                              alg_swaps = swaps_arr t, alg_signs = signs t, alg_cayley = cayley t,
                              alg_blades = bd', alg_pss = mv\<rparr>))))"

definition Algebra_init ::
  "nat \<Rightarrow> nat \<Rightarrow> nat \<Rightarrow> int list option \<Rightarrow> int option \<Rightarrow> bool \<Rightarrow> error + algebra" where
  "Algebra_init p q r signature start_index graded =
     (case signature of
        Some sg \<Rightarrow>
          (let p = count_list sg 1; q = count_list sg (- 1); r = count_list sg 0 in
           if p + q + r \<noteq> length sg then Inl (TypeError ''Unsupported signature.'')
           else Algebra_setup p q r sg start_index graded)
      | None \<Rightarrow>
          (if r = 1
           then Algebra_setup p q r (replicate r 0 @ replicate p 1 @ replicate q (- 1))
                  start_index graded
           else Algebra_setup p q r (replicate p 1 @ replicate q (- 1) @ replicate r 0)
                  start_index graded))"

section \<open>Notions used to state the properties\<close>

text \<open>
  \<open>adj_swaps n xs ys\<close>: the list \<open>ys\<close> is reached from \<open>xs\<close> by \<open>n\<close> exchanges of neighbours.
\<close>

inductive adj_swaps :: "nat \<Rightarrow> 'a list \<Rightarrow> 'a list \<Rightarrow> bool" where
  adj_refl: "adj_swaps 0 xs xs"
| adj_step: "adj_swaps n xs ys \<Longrightarrow> Suc i < length ys \<Longrightarrow>
     adj_swaps (Suc n) xs (ys[i := ys ! Suc i, Suc i := ys ! i])"

text \<open>
  The generators of a blade index, in increasing order, and the population count of an index.
\<close>

definition bits :: "nat \<Rightarrow> nat \<Rightarrow> nat list" where
  "bits d eJ = filter (bit eJ) [0..<d]"

definition popcount :: "nat \<Rightarrow> nat" where
  "popcount i = card {n. bit i n}"

text \<open>
  Every generator label is one hexadecimal digit: generator \<open>ei\<close> is rendered as
  \<^verbatim>\<open>hex(ei + start_index)[2:]\<close>, a single character exactly for the values 0 to 15.
  \<open>label\<close> is that character.
\<close>

definition single_digit :: "nat \<Rightarrow> int \<Rightarrow> bool" where
  "single_digit d si \<longleftrightarrow> 0 \<le> si \<and> si + int d \<le> 16"

definition label :: "int \<Rightarrow> nat \<Rightarrow> char" where
  "label si ei = hexdigit (ei + nat si)"

text \<open>
  A character for which the signature lookup of the collapsing loop raises nothing, the
  signature entry that lookup yields, and the sign and string the Cayley builder computes
  from the concatenated digit word \<open>w\<close> of a pair.
\<close>

definition good_key :: "int list \<Rightarrow> int \<Rightarrow> char \<Rightarrow> bool" where
  "good_key sg si k \<longleftrightarrow> (\<exists>n s. int16 k = Inr n \<and> np_getitem sg (n - si) = Inr s)"

definition square_of :: "int list \<Rightarrow> int \<Rightarrow> char \<Rightarrow> int" where
  "square_of sg si k =
     (case int16 k of
        Inl e \<Rightarrow> 0
      | Inr n \<Rightarrow> (case np_getitem sg (n - si) of Inl e \<Rightarrow> 0 | Inr s \<Rightarrow> s))"

definition entry_sign :: "int list \<Rightarrow> int \<Rightarrow> string \<Rightarrow> int" where
  "entry_sign sg si w =
     (if odd (inversions w) then - 1 else 1) *
     prod_list (map (square_of sg si)
       (filter (\<lambda>k. count_list w k div 2 \<noteq> 0) (sorted_list_of_set (set w))))"

definition entry_string :: "int \<Rightarrow> string \<Rightarrow> string" where
  "entry_string sn w =
     (if sn \<noteq> 0
      then (if sn = - 1 then ''-'' else '''') @ ''e'' @
           filter (\<lambda>k. odd (count_list w k)) (sorted_list_of_set (set w))
      else ''0'')"

definition good_labels :: "nat \<Rightarrow> int \<Rightarrow> int list \<Rightarrow> bool" where
  "good_labels d si sg \<longleftrightarrow>
     list_all (\<lambda>ei. list_all (good_key sg si) (drop 2 (hex (int ei + si)))) [0..<d]"

text \<open>
  The sign of the product of the blades with indices \<open>a\<close> and \<open>b\<close>: the parity of the
  exchanges that sort the generators, times the squares of the generators they share.
\<close>

definition blade_sign :: "int list \<Rightarrow> nat \<Rightarrow> nat \<Rightarrow> nat \<Rightarrow> int" where
  "blade_sign sg d a b =
     (if odd (inversions (bits d a @ bits d b)) then - 1 else 1) *
     prod_list (map (nth sg) (bits d (and a b)))"

text \<open>
  The multivector \<^verbatim>\<open>BladeDict.__getitem__\<close> builds for the blade with index \<open>bin_blade\<close>,
  and the invariant of the cache: every stored value is the one built for its name.
\<close>

definition blade_value :: "nat \<Rightarrow> bool \<Rightarrow> nat \<Rightarrow> multivector" where
  "blade_value d graded bin_blade =
     (if graded
      then MultiVector (map (\<lambda>i. if bin_blade = i then 1 else 0)
                          (filter (\<lambda>j. popcount j = popcount bin_blade) [0..<2 ^ d]))
                       [popcount bin_blade]
      else fromkeysvalues [bin_blade] [1])"

definition cache_ok :: "nat \<Rightarrow> (string \<times> nat) list \<Rightarrow> bool \<Rightarrow> bladedict \<Rightarrow> bool" where
  "cache_ok d c2b graded self \<longleftrightarrow>
     (\<forall>(blade, mv)\<in>set (blades self).
        \<exists>bin_blade. map_of c2b blade = Some bin_blade \<and> mv = blade_value d graded bin_blade)"

text \<open>
  The \<open>start_index\<close> and the signature the constructor settles on when none is given.
\<close>

definition resolve_start_index :: "nat \<Rightarrow> int option \<Rightarrow> int" where
  "resolve_start_index r start_index =
     (case start_index of None \<Rightarrow> (if r = 1 then 0 else 1) | Some s \<Rightarrow> s)"

definition default_signature :: "nat \<Rightarrow> nat \<Rightarrow> nat \<Rightarrow> int list" where
  "default_signature p q r =
     (if r = 1 then replicate r 0 @ replicate p 1 @ replicate q (- 1)
      else replicate p 1 @ replicate q (- 1) @ replicate r 0)"

text \<open>
  \<^verbatim>\<open>Algebra(9, start_index=8)\<close>: the generators are labelled \<open>8, 9, a, \<dots>, f\<close> and, for the
  ninth, \<open>10\<close>. Construction succeeds, but the Cayley builder splits names into single
  characters and treats \<open>10\<close> as the two generators \<open>1\<close> and \<open>0\<close>.
\<close>

abbreviation algebra_9_8 :: "error + algebra" where
  "algebra_9_8 \<equiv> Algebra_init 9 0 0 None (Some 8) False"

section \<open>The swap count of \<^verbatim>\<open>_sort_product\<close>\<close>

lemma inversions_sorted: "sorted xs \<Longrightarrow> inversions xs = 0"
  by (induction xs) (auto simp: filter_empty_conv)

lemma sorted_nth_Suc: "(\<forall>i<length xs - 1. xs ! i \<le> xs ! Suc i) \<Longrightarrow> sorted xs"
  by (auto simp: sorted_iff_nth_Suc)

lemma bubble_pass_facts:
  assumes "bubble_pass xs s = (ys, t)"
  shows "mset ys = mset xs" "inversions ys + t = inversions xs + s" "s \<le> t"
    "t = s \<Longrightarrow> ys = xs \<and> sorted xs"
proof -
  from assms have f: "fold swap_step [0..<length xs - 1] (xs, s) = (ys, t)"
    by (simp add: bubble_pass_def)
  note inv = pass_invariant[OF order_refl f]
  from inv show "mset ys = mset xs" "inversions ys + t = inversions xs + s" "s \<le> t"
    by simp_all
  show "ys = xs \<and> sorted xs" if "t = s"
    using inv that sorted_nth_Suc[of xs] by simp
qed

lemma sort_loop_correct:
  "prev_swap = swaps \<Longrightarrow> sort_loop prd swaps prev_swap = (ys, t) \<Longrightarrow>
   sorted ys \<and> mset ys = mset prd \<and> t = swaps + inversions prd"
proof (induction prd swaps prev_swap arbitrary: ys t rule: sort_loop.induct)
  case (1 prd swaps prev_swap)
  obtain prd' swaps' where bp: "bubble_pass prd swaps = (prd', swaps')"
    by (cases "bubble_pass prd swaps")
  note facts = bubble_pass_facts[OF bp]
  show ?case
  proof (cases "prev_swap = swaps'")
    case True
    with "1.prems" bp have res: "ys = prd'" "t = swaps'"
      by (simp_all add: sort_loop.simps[of prd])
    from True "1.prems"(1) facts(4) have "prd' = prd" "sorted prd" by simp_all
    with res True "1.prems"(1) show ?thesis by (simp add: inversions_sorted)
  next
    case False
    with "1.prems" bp have "sort_loop prd' swaps' swaps' = (ys, t)"
      by (simp add: sort_loop.simps[of prd])
    from "1.IH"[OF bp[symmetric] False refl this] facts(1,2) show ?thesis
      by simp
  qed
qed

lemma sort_product_correct:
  "sorted (fst (sort_product xs)) \<and> mset (fst (sort_product xs)) = mset xs \<and>
   snd (sort_product xs) = inversions xs"
proof (cases "length xs > 1")
  case True
  obtain ys t where r: "sort_loop xs 0 0 = (ys, t)" by (cases "sort_loop xs 0 0")
  from sort_loop_correct[OF refl r] True r show ?thesis by (simp add: sort_product_def)
next
  case False
  then have "xs = [] \<or> (\<exists>x. xs = [x])" by (cases xs) auto
  then show ?thesis by (auto simp: sort_product_def)
qed

lemma inversions_swap_le:
  "Suc i < length xs \<Longrightarrow> inversions xs \<le> Suc (inversions (xs[i := xs ! Suc i, Suc i := xs ! i]))"
proof (induction xs arbitrary: i)
  case Nil
  then show ?case by simp
next
  case (Cons x xs)
  show ?case
  proof (cases i)
    case 0
    with Cons.prems obtain y zs where xs: "xs = y # zs" by (cases xs) auto
    with 0 show ?thesis by auto
  next
    case (Suc j)
    with Cons.prems have j: "Suc j < length xs" by auto
    from Cons.IH[OF j] filter_length_swap[OF j] Suc show ?thesis by simp
  qed
qed

lemma adj_swaps_inversions: "adj_swaps n xs ys \<Longrightarrow> inversions xs \<le> inversions ys + n"
proof (induction rule: adj_swaps.induct)
  case (adj_refl xs)
  then show ?case by simp
next
  case (adj_step n xs ys i)
  from inversions_swap_le[OF adj_step.hyps(2)] adj_step.IH show ?case by simp
qed

lemma pass_adj_swaps:
  "n \<le> length xs - 1 \<Longrightarrow> fold swap_step [0..<n] (xs, s) = (ys, t) \<Longrightarrow>
   adj_swaps k xs0 xs \<Longrightarrow> adj_swaps (k + (t - s)) xs0 ys"
proof (induction n arbitrary: ys t)
  case 0
  then show ?case by simp
next
  case (Suc n)
  obtain zs u where f: "fold swap_step [0..<n] (xs, s) = (zs, u)"
    by (cases "fold swap_step [0..<n] (xs, s)")
  from Suc.prems have n: "n \<le> length xs - 1" "Suc n < length xs" by auto
  note IH = Suc.IH[OF n(1) f Suc.prems(3)]
  note inv = pass_invariant[OF n(1) f]
  from Suc.prems(2) f have st: "swap_step n (zs, u) = (ys, t)" by simp
  show ?case
  proof (cases "zs ! Suc n < zs ! n")
    case True
    with st have ys: "ys = zs[n := zs ! Suc n, Suc n := zs ! n]" and t: "t = Suc u" by auto
    from inv n have len: "Suc n < length zs" by simp
    from adj_step[OF IH len] inv show ?thesis unfolding ys t by (simp add: Suc_diff_le)
  next
    case False
    with st have "ys = zs" "t = u" by auto
    with IH show ?thesis by simp
  qed
qed

lemma sort_loop_adj_swaps:
  "prev_swap = swaps \<Longrightarrow> sort_loop prd swaps prev_swap = (ys, t) \<Longrightarrow>
   adj_swaps k xs0 prd \<Longrightarrow> adj_swaps (k + (t - swaps)) xs0 ys"
proof (induction prd swaps prev_swap arbitrary: ys t k rule: sort_loop.induct)
  case (1 prd swaps prev_swap)
  obtain prd' swaps' where bp: "bubble_pass prd swaps = (prd', swaps')"
    by (cases "bubble_pass prd swaps")
  then have f: "fold swap_step [0..<length prd - 1] (prd, swaps) = (prd', swaps')"
    by (simp add: bubble_pass_def)
  note facts = bubble_pass_facts[OF bp]
  note step = pass_adj_swaps[OF order_refl f "1.prems"(3)]
  show ?case
  proof (cases "prev_swap = swaps'")
    case True
    with "1.prems" bp have "ys = prd'" "t = swaps'"
      by (simp_all add: sort_loop.simps[of prd])
    with step show ?thesis by simp
  next
    case False
    with "1.prems" bp have r: "sort_loop prd' swaps' swaps' = (ys, t)"
      by (simp add: sort_loop.simps[of prd])
    from sort_loop_correct[OF refl r] have "swaps' \<le> t" by simp
    with "1.IH"[OF bp[symmetric] False refl r step] facts(3) show ?thesis
      by (simp add: algebra_simps)
  qed
qed

lemma sort_product_adj_swaps:
  "adj_swaps (snd (sort_product xs)) xs (fst (sort_product xs))"
proof (cases "length xs > 1")
  case True
  obtain ys t where r: "sort_loop xs 0 0 = (ys, t)" by (cases "sort_loop xs 0 0")
  from sort_loop_adj_swaps[OF refl r adj_refl] True r show ?thesis by (simp add: sort_product_def)
next
  case False
  then show ?thesis by (simp add: sort_product_def adj_refl)
qed

lemma sort_product_ex: "sort_product ''12312'' = (''11223'', 3)"
  by (simp add: sort_product_def sort_loop.simps bubble_pass_def upt_rec)

text \<open>
  C6: \<^verbatim>\<open>_sort_product\<close> terminates (it is a total function, by the termination proof of
  \<open>sort_loop\<close>), leaves the list sorted in non-decreasing order (a permutation of the input),
  and returns the inversion count of the original list, which is the number of adjacent
  transpositions it performs and the least number that sorts the list; on a list of at most
  one element the count is 0.
\<close>

theorem sort_product_counts_swaps:
  fixes xs :: "'a::linorder list"
  shows "sorted (fst (sort_product xs)) \<and> mset (fst (sort_product xs)) = mset xs \<and>
     snd (sort_product xs) = inversions xs \<and>
     adj_swaps (snd (sort_product xs)) xs (fst (sort_product xs)) \<and>
     (\<forall>n ys. adj_swaps n xs ys \<and> sorted ys \<longrightarrow> snd (sort_product xs) \<le> n) \<and>
     (length xs \<le> 1 \<longrightarrow> snd (sort_product xs) = 0)"
proof -
  note c = sort_product_correct[of xs]
  have "snd (sort_product xs) \<le> n" if "adj_swaps n xs ys" "sorted ys" for n ys
    using adj_swaps_inversions[OF that(1)] inversions_sorted[OF that(2)] c by simp
  moreover have "snd (sort_product xs) = 0" if "length xs \<le> 1"
    using that by (simp add: sort_product_def)
  ultimately show ?thesis using c sort_product_adj_swaps[of xs] by blast
qed

theorem sort_product_counts_swaps_witness:
  "length ''7'' \<le> 1 \<and> snd (sort_product ''7'') = 0 \<and> adj_swaps 3 ''12312'' ''11223'' \<and>
   sorted ''11223'' \<and> inversions ''12312'' = 3"
proof -
  from sort_product_counts_swaps[of "''12312''"] have "adj_swaps 3 ''12312'' ''11223''"
    and "inversions ''12312'' = 3"
    by (simp_all add: sort_product_ex)
  moreover from sort_product_counts_swaps[of "''7''"] have "snd (sort_product ''7'') = 0"
    by simp
  ultimately show ?thesis by simp
qed

section \<open>Dictionaries, bit tests and hexadecimal digits\<close>

subsection \<open>Dictionaries\<close>

lemma map_of_fold_update:
  "map_of (fold (\<lambda>(k, v) acc. AList.update k v acc) xs acc) = map_of (rev xs @ acc)"
proof (induction xs arbitrary: acc)
  case Nil
  then show ?case by simp
next
  case (Cons a xs)
  obtain k v where a: "a = (k, v)" by (cases a)
  have "map_of (AList.update k v acc) = map_of ((k, v) # acc)"
    by (simp add: update_conv')
  then show ?case using Cons.IH[of "AList.update k v acc"] by (simp add: a)
qed

lemma map_of_dict_of: "map_of (dict_of xs) = map_of (rev xs)"
  by (simp add: dict_of_def map_of_fold_update)

lemma distinct_fold_update:
  "distinct (map fst acc) \<Longrightarrow> distinct (map fst (fold (\<lambda>(k, v) acc. AList.update k v acc) xs acc))"
  by (induction xs arbitrary: acc) (auto simp: distinct_update)

lemma distinct_dict_of: "distinct (map fst (dict_of xs))"
  by (simp add: dict_of_def distinct_fold_update)

lemma update_fresh: "k \<notin> fst ` set al \<Longrightarrow> AList.update k v al = al @ [(k, v)]"
  by (induction al) auto

lemma fold_update_distinct:
  "distinct (map fst (acc @ xs)) \<Longrightarrow> fold (\<lambda>(k, v) acc. AList.update k v acc) xs acc = acc @ xs"
proof (induction xs arbitrary: acc)
  case Nil
  then show ?case by simp
next
  case (Cons a xs)
  obtain k v where a: "a = (k, v)" by (cases a)
  from Cons.prems have fresh: "k \<notin> fst ` set acc" by (auto simp: a)
  from Cons.prems have "distinct (map fst ((acc @ [(k, v)]) @ xs))" by (simp add: a)
  from Cons.IH[OF this] show ?case by (simp add: a update_fresh[OF fresh])
qed

lemma dict_of_distinct: "distinct (map fst xs) \<Longrightarrow> dict_of xs = xs"
  using fold_update_distinct[of "[]" xs] by (simp add: dict_of_def)

lemma dict_of_keys: "fst ` set (dict_of xs) = fst ` set xs"
proof -
  have "dom (map_of (dict_of xs)) = dom (map_of (rev xs))" by (simp add: map_of_dict_of)
  then show ?thesis by (simp add: dom_map_of_conv_image_fst)
qed

lemma getitem_Inr [simp]: "getitem dict k = Inr v \<longleftrightarrow> map_of dict k = Some v"
  by (simp add: getitem_def split: option.splits)

subsection \<open>Bit tests of the naming loop\<close>

lemma bit_length_0 [simp]: "bit_length 0 = 0"
  by (simp add: bit_length.simps)

lemma bit_length_exp [simp]: "bit_length (2 ^ n) = Suc n"
proof (induction n)
  case 0
  show ?case by (simp add: bit_length.simps[of "Suc 0"])
next
  case (Suc n)
  have "bit_length (2 * 2 ^ n) = Suc (bit_length (2 * 2 ^ n div 2))"
    by (subst bit_length.simps) simp
  with Suc show ?case by simp
qed

lemma and_exp_nat: "and (eJ :: nat) (2 ^ ei) = (if bit eJ ei then 2 ^ ei else 0)"
  by (rule bit_eqI) (auto simp: bit_and_iff bit_exp_iff)

lemma bit_length_and_exp:
  "bit_length (and eJ (2 ^ ei)) = (if bit eJ ei then Suc ei else 0)"
  by (simp add: and_exp_nat)

lemma blade_name_bits:
  "blade_name d si eJ = CHR ''e'' # concat (map (\<lambda>ei. drop 2 (hex (int ei + si))) (bits d eJ))"
proof -
  have "map (\<lambda>num. drop 2 (hex (int num + si - 1)))
          (filter (\<lambda>num. num \<noteq> 0) (map (\<lambda>ei. bit_length (and eJ (2 ^ ei))) xs))
        = map (\<lambda>ei. drop 2 (hex (int ei + si))) (filter (bit eJ) xs)" for xs
    by (induction xs) (simp_all add: bit_length_and_exp)
  then show ?thesis by (simp add: blade_name_def bits_def)
qed

subsection \<open>Single hexadecimal digits\<close>

lemma hexdigit_codes:
  "list_all (\<lambda>n. (of_char (hexdigit n) :: nat) = (if n < 10 then 48 + n else 87 + n)) [0..<16]"
  by (simp add: upt_rec hexdigit_def)

lemma of_char_hexdigit:
  "n < 16 \<Longrightarrow> (of_char (hexdigit n) :: nat) = (if n < 10 then 48 + n else 87 + n)"
  using hexdigit_codes unfolding list_all_iff by (metis atLeastLessThan_iff set_upt zero_le)

lemma hexdigit_less: "m < 16 \<Longrightarrow> n < 16 \<Longrightarrow> hexdigit m < hexdigit n \<longleftrightarrow> m < n"
  by (auto simp: less_char_def of_char_hexdigit)

lemma hexdigit_inj: "m < 16 \<Longrightarrow> n < 16 \<Longrightarrow> hexdigit m = hexdigit n \<longleftrightarrow> m = n"
  using hexdigit_less[of m n] hexdigit_less[of n m] by (metis less_irrefl nat_neq_iff)

lemma int16_hexdigit: "n < 16 \<Longrightarrow> int16 (hexdigit n) = Inr (int n)"
  by (simp add: int16_def of_char_hexdigit Let_def)

lemma hex_digit: "0 \<le> n \<Longrightarrow> n < 16 \<Longrightarrow> drop 2 (hex n) = [hexdigit (nat n)]"
  by (simp add: hex_def hex_nat.simps)

subsection \<open>The name tables\<close>

lemma map_of_rev_upt:
  "map_of (rev (map (\<lambda>b. (f b, b)) [0..<n])) c = Some b \<Longrightarrow>
   b < n \<and> f b = c \<and> (\<forall>b'<n. f b' = c \<longrightarrow> b' \<le> b)"
proof (induction n)
  case 0
  then show ?case by simp
next
  case (Suc n)
  show ?case
  proof (cases "f n = c")
    case True
    with Suc.prems have "b = n" by simp
    with True show ?thesis by auto
  next
    case False
    with Suc.prems have "map_of (rev (map (\<lambda>b. (f b, b)) [0..<n])) c = Some b" by simp
    from Suc.IH[OF this] False show ?thesis by (auto simp: less_Suc_eq)
  qed
qed

lemma map_of_rev_upt_dom:
  "b < n \<Longrightarrow> \<exists>b'. map_of (rev (map (\<lambda>b. (f b, b)) [0..<n])) (f b) = Some b'"
proof -
  assume "b < n"
  then have "f b \<in> fst ` set (rev (map (\<lambda>b. (f b, b)) [0..<n]))" by force
  then have "f b \<in> dom (map_of (rev (map (\<lambda>b. (f b, b)) [0..<n])))"
    by (simp only: dom_map_of_conv_image_fst)
  then show ?thesis by blast
qed

lemma swapped_bin2canon:
  "map (\<lambda>(b, c). (c, b)) (bin2canon d si) = map (\<lambda>b. (blade_name d si b, b)) [0..<2 ^ d]"
  by (simp add: bin2canon_def)

lemma distinct_keys_sort_key:
  "distinct (map fst xs) \<Longrightarrow> distinct (map fst (sort_key f xs))"
proof -
  assume d: "distinct (map fst xs)"
  have "mset (map fst (sort_key f xs)) = mset (map fst xs)" by simp
  then show ?thesis using d by (metis distinct_count_atmost_1 mset_eq_setD)
qed

lemma canon2bin_sorted:
  "canon2bin d si = sort_key (\<lambda>x. (length (fst x), fst x))
     (dict_of (map (\<lambda>b. (blade_name d si b, b)) [0..<2 ^ d]))"
  unfolding canon2bin_def swapped_bin2canon
  by (rule dict_of_distinct) (rule distinct_keys_sort_key, rule distinct_dict_of)

lemma distinct_canon2bin: "distinct (map fst (canon2bin d si))"
  unfolding canon2bin_sorted by (rule distinct_keys_sort_key) (rule distinct_dict_of)

lemma map_of_canon2bin:
  "map_of (canon2bin d si) = map_of (rev (map (\<lambda>b. (blade_name d si b, b)) [0..<2 ^ d]))"
proof -
  let ?inner = "dict_of (map (\<lambda>b. (blade_name d si b, b)) [0..<2 ^ d])"
  have "set (canon2bin d si) = set ?inner" by (simp add: canon2bin_sorted)
  then have "map_of (canon2bin d si) = map_of ?inner"
    using distinct_canon2bin[of d si] distinct_dict_of[of "map (\<lambda>b. (blade_name d si b, b)) [0..<2 ^ d]"]
    by (simp add: map_of_inject_set)
  then show ?thesis by (simp add: map_of_dict_of)
qed

lemma canon2bin_Some:
  assumes "map_of (canon2bin d si) c = Some b"
  shows "b < 2 ^ d" "blade_name d si b = c" "\<And>b'. b' < 2 ^ d \<Longrightarrow> blade_name d si b' = c \<Longrightarrow> b' \<le> b"
  using map_of_rev_upt[of "blade_name d si" "2 ^ d" c b] assms
  by (simp_all add: map_of_canon2bin)

lemma canon2bin_dom:
  "b < 2 ^ d \<Longrightarrow> \<exists>b'. map_of (canon2bin d si) (blade_name d si b) = Some b'"
  using map_of_rev_upt_dom[of b "2 ^ d" "blade_name d si"] by (simp add: map_of_canon2bin)

lemma canon2bin_keys: "set (map fst (canon2bin d si)) = blade_name d si ` {0..<2 ^ d}"
proof -
  have "fst ` set (canon2bin d si) = dom (map_of (canon2bin d si))"
    by (simp add: dom_map_of_conv_image_fst)
  also have "\<dots> = fst ` set (rev (map (\<lambda>b. (blade_name d si b, b)) [0..<2 ^ d]))"
    unfolding map_of_canon2bin by (simp only: dom_map_of_conv_image_fst)
  also have "\<dots> = blade_name d si ` {0..<2 ^ d}" by force
  finally show ?thesis by simp
qed

lemma canon2bin_inj:
  "map_of (canon2bin d si) c = Some b \<Longrightarrow> map_of (canon2bin d si) c' = Some b \<Longrightarrow> c = c'"
  using canon2bin_Some(2) by blast

lemma bin2canon_lookup:
  "b < 2 ^ d \<Longrightarrow> map_of (bin2canon d si) b = Some (blade_name d si b)"
proof -
  assume "b < 2 ^ d"
  have "map_of (map (\<lambda>eJ. (eJ, blade_name d si eJ)) xs) b = (if b \<in> set xs then Some (blade_name d si b) else None)" for xs
    by (induction xs) auto
  with \<open>b < 2 ^ d\<close> show ?thesis by (simp add: bin2canon_def)
qed

subsection \<open>Names when every generator label is one hexadecimal digit\<close>

lemma set_bits: "set (bits d eJ) = {ei. ei < d \<and> bit eJ ei}"
  by (auto simp: bits_def)

lemma blade_name_single:
  assumes "single_digit d si"
  shows "blade_name d si eJ = CHR ''e'' # map (label si) (bits d eJ)"
proof -
  have "drop 2 (hex (int ei + si)) = [label si ei]" if "ei \<in> set (bits d eJ)" for ei
  proof -
    from that have "ei < d" by (simp add: set_bits)
    with assms have "0 \<le> int ei + si" "int ei + si < 16" by (simp_all add: single_digit_def)
    from hex_digit[OF this] assms show ?thesis
      by (simp add: label_def single_digit_def nat_add_distrib)
  qed
  then have "map (\<lambda>ei. drop 2 (hex (int ei + si))) (bits d eJ) = map (\<lambda>ei. [label si ei]) (bits d eJ)"
    by simp
  then have "concat (map (\<lambda>ei. drop 2 (hex (int ei + si))) (bits d eJ)) = map (label si) (bits d eJ)"
    by (simp only: concat_map_singleton)
  then show ?thesis by (simp only: blade_name_bits)
qed

lemma label_less:
  "single_digit d si \<Longrightarrow> i < d \<Longrightarrow> j < d \<Longrightarrow> label si i < label si j \<longleftrightarrow> i < j"
  unfolding label_def single_digit_def by (subst hexdigit_less) auto

lemma label_inj:
  "single_digit d si \<Longrightarrow> i < d \<Longrightarrow> j < d \<Longrightarrow> label si i = label si j \<longleftrightarrow> i = j"
  unfolding label_def single_digit_def by (subst hexdigit_inj) auto

lemma label_inj_on: "single_digit d si \<Longrightarrow> inj_on (label si) {0..<d}"
  by (rule inj_onI) (simp add: label_inj)

lemma int16_label:
  "single_digit d si \<Longrightarrow> i < d \<Longrightarrow> int16 (label si i) = Inr (int i + si)"
  unfolding label_def single_digit_def by (subst int16_hexdigit) auto

lemma bits_eq_imp:
  assumes "bits d a = bits d b" "a < 2 ^ d" "b < 2 ^ d"
  shows "a = b"
proof (rule bit_eqI)
  fix n
  from assms(1) have s: "set (bits d a) = set (bits d b)" by simp
  have ta: "take_bit d a = a" and tb: "take_bit d b = b"
    using assms(2,3) by (simp_all add: take_bit_nat_eq_self)
  show "bit a n \<longleftrightarrow> bit b n"
  proof (cases "n < d")
    case True
    with s show ?thesis by (auto simp: set_bits)
  next
    case False
    have "\<not> bit (take_bit d a) n" "\<not> bit (take_bit d b) n"
      using False by (simp_all add: bit_take_bit_iff)
    then show ?thesis by (simp add: ta tb)
  qed
qed

lemma blade_name_inj:
  assumes "single_digit d si" "a < 2 ^ d" "b < 2 ^ d" "blade_name d si a = blade_name d si b"
  shows "a = b"
proof -
  from assms(4) have "map (label si) (bits d a) = map (label si) (bits d b)"
    by (simp add: blade_name_single[OF assms(1)])
  moreover have "inj_on (label si) (set (bits d a) \<union> set (bits d b))"
    by (rule inj_on_subset[OF label_inj_on[OF assms(1)]]) (auto simp: set_bits)
  ultimately have "bits d a = bits d b" by (simp add: inj_on_map_eq_map)
  then show ?thesis using assms(2,3) by (rule bits_eq_imp)
qed

lemma canon2bin_single:
  assumes "single_digit d si" "b < 2 ^ d"
  shows "map_of (canon2bin d si) (blade_name d si b) = Some b"
proof -
  from canon2bin_dom[OF assms(2)] obtain b' where
    b': "map_of (canon2bin d si) (blade_name d si b) = Some b'" by blast
  from canon2bin_Some(1,2)[OF b'] blade_name_inj[OF assms(1) _ assms(2)] have "b' = b" by blast
  with b' show ?thesis by simp
qed

lemma n3: "blade_name 9 8 256 = ''e10''"
  by (simp add: blade_name_bits bits_def upt_rec bit_iff_odd hex_def hex_nat.simps hexdigit_def)

lemma n1: "blade_name 18 1 3 = ''e12''"
  by (simp add: blade_name_bits bits_def upt_rec bit_iff_odd hex_def hex_nat.simps hexdigit_def)

lemma n2: "blade_name 18 1 131072 = ''e12''"
  by (simp add: blade_name_bits bits_def upt_rec bit_iff_odd hex_def hex_nat.simps hexdigit_def)

lemmas name_eval = blade_name_bits bits_def upt_rec bit_iff_odd hex_def hex_nat.simps hexdigit_def

text \<open>
  C3 as stated fails: with 18 generators and the default \<open>start_index = 1\<close> the generator
  at bit 17 is rendered by the two characters \<open>12\<close>, so the blades with index \<open>3\<close> and
  \<open>2 ^ 17\<close> share the name \<open>e12\<close> and \<open>canon2bin\<close> keeps only the later index.
\<close>

theorem bin2canon_roundtrip_counterexample:
  "getitem (bin2canon 18 1) 3 = Inr ''e12'' \<and> getitem (bin2canon 18 1) 131072 = Inr ''e12'' \<and>
   getitem (canon2bin 18 1) ''e12'' \<noteq> Inr 3"
proof -
  have a: "map_of (bin2canon 18 1) 3 = Some ''e12''"
    using bin2canon_lookup[of 3 18 1] by (simp add: n1)
  have b: "map_of (bin2canon 18 1) 131072 = Some ''e12''"
    using bin2canon_lookup[of 131072 18 1] by (simp add: n2)
  have "map_of (canon2bin 18 1) ''e12'' \<noteq> Some 3"
  proof
    assume "map_of (canon2bin 18 1) ''e12'' = Some 3"
    from canon2bin_Some(3)[OF this, of 131072] show False by (simp add: n2)
  qed
  with a b show ?thesis by simp
qed

text \<open>
  C3, amended: when every generator label is a single hexadecimal digit
  (\<open>0 \<le> start_index\<close> and \<open>start_index + d \<le> 16\<close>), every index below \<open>2 ^ d\<close> is mapped
  by \<open>bin2canon\<close> to a name that \<open>canon2bin\<close> maps back to the index, \<open>bin2canon\<close> is
  injective on these indices, and the keys of \<open>canon2bin\<close> are exactly the names of
  \<open>bin2canon\<close>.
\<close>

theorem bin2canon_canon2bin_bijection:
  assumes "0 \<le> start_index" "start_index + int d \<le> 16"
  shows "(\<forall>index<2 ^ d. \<exists>c. getitem (bin2canon d start_index) index = Inr c \<and>
            getitem (canon2bin d start_index) c = Inr index) \<and>
         (\<forall>i<2 ^ d. \<forall>j<2 ^ d. getitem (bin2canon d start_index) i = getitem (bin2canon d start_index) j
            \<longrightarrow> i = j) \<and>
         fst ` set (canon2bin d start_index) = snd ` set (bin2canon d start_index)"
proof -
  from assms have sd: "single_digit d start_index" by (simp add: single_digit_def)
  have "\<exists>c. getitem (bin2canon d start_index) index = Inr c \<and>
            getitem (canon2bin d start_index) c = Inr index" if "index < 2 ^ d" for index
    using bin2canon_lookup[OF that] canon2bin_single[OF sd that] by simp
  moreover have "i = j" if "i < 2 ^ d" "j < 2 ^ d"
    "getitem (bin2canon d start_index) i = getitem (bin2canon d start_index) j" for i j
    using that bin2canon_lookup[OF that(1), of start_index] bin2canon_lookup[OF that(2), of start_index]
      blade_name_inj[OF sd that(1,2)]
    by (simp add: getitem_def)
  moreover have "fst ` set (canon2bin d start_index) = snd ` set (bin2canon d start_index)"
    using canon2bin_keys[of d start_index] by (force simp: bin2canon_def)
  ultimately show ?thesis by blast
qed

theorem bin2canon_canon2bin_bijection_witness:
  "getitem (bin2canon 2 1) 3 = Inr ''e12'' \<and> getitem (canon2bin 2 1) ''e12'' = Inr 3"
proof -
  have n: "blade_name 2 1 3 = ''e12''" by (simp add: name_eval)
  have "(0::int) \<le> 1" "1 + int 2 \<le> 16" by simp_all
  from bin2canon_canon2bin_bijection[OF this] have
    "\<forall>index<2 ^ 2. \<exists>c. getitem (bin2canon 2 1) index = Inr c \<and> getitem (canon2bin 2 1) c = Inr index"
    by (rule conjunct1)
  moreover have "(3::nat) < 2 ^ 2" by simp
  ultimately obtain c where
    c: "getitem (bin2canon 2 1) 3 = Inr c" "getitem (canon2bin 2 1) c = Inr 3" by blast
  have "map_of (bin2canon 2 1) 3 = Some ''e12''"
    using bin2canon_lookup[of 3 2 1] by (simp add: n)
  with c(1) have "c = ''e12''" by (simp add: getitem_def)
  with c show ?thesis by simp
qed

section \<open>The Cayley entry of a pair of names\<close>

subsection \<open>Counting digits\<close>

lemma Counter_snoc:
  "Counter (xs @ [x]) =
     AList.update x (case map_of (Counter xs) x of None \<Rightarrow> 1 | Some n \<Rightarrow> n + 1) (Counter xs)"
  by (simp add: Counter_def)

lemma Counter_Nil [simp]: "Counter [] = []"
  by (simp add: Counter_def)

lemma map_of_Counter:
  "map_of (Counter xs) k = (if k \<in> set xs then Some (count_list xs k) else None)"
proof (induction xs rule: rev_induct)
  case Nil
  then show ?case by simp
next
  case (snoc x xs)
  then show ?case by (auto simp: Counter_snoc update_conv')
qed

lemma distinct_Counter: "distinct (map fst (Counter xs))"
  by (induction xs rule: rev_induct) (simp_all add: Counter_snoc distinct_update)

lemma keys_Counter: "set (map fst (Counter xs)) = set xs"
proof -
  have "fst ` set (Counter xs) = dom (map_of (Counter xs))"
    by (simp add: dom_map_of_conv_image_fst)
  also have "\<dots> = set xs" by (auto simp: map_of_Counter dom_def)
  finally show ?thesis by simp
qed

lemma sorted_keys_Counter: "sorted xs \<Longrightarrow> sorted (map fst (Counter xs))"
proof (induction xs rule: rev_induct)
  case Nil
  then show ?case by simp
next
  case (snoc x xs)
  from snoc.prems have s: "sorted xs" and le: "\<forall>y\<in>set xs. y \<le> x"
    by (auto simp: sorted_append)
  from le keys_Counter[of xs] have "\<forall>y\<in>set (map fst (Counter xs)). y \<le> x" by simp
  with snoc.IH[OF s] show ?case
    by (simp add: Counter_snoc update_keys sorted_append)
qed

lemma alist_by_keys:
  "(\<And>k v. (k, v) \<in> set al \<Longrightarrow> v = f k) \<Longrightarrow> al = map (\<lambda>k. (k, f k)) (map fst al)"
  by (induction al) auto

lemma Counter_sorted:
  assumes "sorted xs"
  shows "Counter xs = map (\<lambda>k. (k, count_list xs k)) (sorted_list_of_set (set xs))"
proof -
  have keys: "map fst (Counter xs) = sorted_list_of_set (set xs)"
    using sorted_keys_Counter[OF assms] distinct_Counter[of xs] keys_Counter[of xs]
    by (metis sorted_list_of_set.idem_if_sorted_distinct)
  have vals: "v = count_list xs k" if "(k, v) \<in> set (Counter xs)" for k v
  proof -
    from that distinct_Counter[of xs] have "map_of (Counter xs) k = Some v" by simp
    then show ?thesis by (simp add: map_of_Counter split: if_splits)
  qed
  have "Counter xs = map (\<lambda>k. (k, count_list xs k)) (map fst (Counter xs))"
    using vals by (rule alist_by_keys)
  then show ?thesis by (simp only: keys)
qed

subsection \<open>The pair-collapsing loop\<close>

lemma collapse_ok:
  assumes "\<And>k v. (k, v) \<in> set items \<Longrightarrow> v div 2 \<noteq> 0 \<Longrightarrow> good_key sg si k"
  shows "collapse sg si items (s, c) =
     Inr (s * prod_list (map (\<lambda>(k, v). if v div 2 \<noteq> 0 then square_of sg si k else 1) items),
          fold (\<lambda>(k, v). AList.update k (v mod 2)) items c)"
  using assms
proof (induction items arbitrary: s c)
  case Nil
  then show ?case by simp
next
  case (Cons a items)
  obtain k v where a: "a = (k, v)" by (cases a)
  have IH: "collapse sg si items (s', c') =
     Inr (s' * prod_list (map (\<lambda>(k, v). if v div 2 \<noteq> 0 then square_of sg si k else 1) items),
          fold (\<lambda>(k, v). AList.update k (v mod 2)) items c')" for s' c'
  proof (rule Cons.IH)
    fix k v
    assume "(k, v) \<in> set items" "v div 2 \<noteq> 0"
    then show "good_key sg si k" using Cons.prems[of k v] by simp
  qed
  show ?case
  proof (cases "v div 2 \<noteq> 0")
    case True
    with Cons.prems[of k v] have "good_key sg si k" by (simp add: a)
    then obtain n x where nx: "int16 k = Inr n" "np_getitem sg (n - si) = Inr x"
      by (auto simp: good_key_def)
    then have "square_of sg si k = x" by (simp add: square_of_def)
    with True nx show ?thesis by (simp add: a IH mult.assoc)
  next
    case False
    then show ?thesis by (simp add: a IH)
  qed
qed

lemma update_middle:
  "k \<notin> fst ` set pre \<Longrightarrow> AList.update k v' (pre @ (k, v) # rest) = pre @ (k, v') # rest"
  by (induction pre) auto

lemma fold_update_values:
  "distinct (map fst (pre @ items)) \<Longrightarrow>
   fold (\<lambda>(k, v). AList.update k (f v)) items (pre @ items) = pre @ map (\<lambda>(k, v). (k, f v)) items"
proof (induction items arbitrary: pre)
  case Nil
  then show ?case by simp
next
  case (Cons a items)
  obtain k v where a: "a = (k, v)" by (cases a)
  from Cons.prems have fresh: "k \<notin> fst ` set pre" by (auto simp: a)
  from Cons.prems have "distinct (map fst ((pre @ [(k, f v)]) @ items))" by (simp add: a)
  from Cons.IH[OF this] show ?case by (simp add: a update_middle[OF fresh])
qed

lemma prod_list_squares:
  "prod_list (map (\<lambda>(k, v). if v div 2 \<noteq> 0 then g k else (1::int)) (map (\<lambda>k. (k, c k)) ks)) =
   prod_list (map g (filter (\<lambda>k. c k div 2 \<noteq> 0) ks))"
  by (induction ks) auto

lemma surviving_digits:
  "concat (map (\<lambda>(key, value). replicate value key) (map (\<lambda>(k, v). (k, v mod 2)) (map (\<lambda>k. (k, c k)) ks))) =
   filter (\<lambda>k. odd (c k)) ks"
  by (induction ks) (auto simp: odd_iff_mod_2_eq_one)

lemma sort_product_eq: "sort_product xs = (sort xs, inversions xs)"
proof -
  note c = sort_product_correct[of xs]
  from c have "sort xs = fst (sort_product xs)" by (simp add: properties_for_sort)
  with c show ?thesis by (simp add: prod_eq_iff)
qed

lemma count_list_sort: "count_list (sort xs) k = count_list xs k"
proof -
  have "count (mset (sort xs)) k = count (mset xs) k" by simp
  then show ?thesis by (simp only: count_mset)
qed

lemma cayley_entry_general:
  assumes "\<And>k. k \<in> set (drop 1 eI @ drop 1 eJ) \<Longrightarrow>
     count_list (drop 1 eI @ drop 1 eJ) k div 2 \<noteq> 0 \<Longrightarrow> good_key sg si k"
  shows "cayley_entry sg si eI eJ =
     Inr (inversions (drop 1 eI @ drop 1 eJ), entry_sign sg si (drop 1 eI @ drop 1 eJ),
          entry_string (entry_sign sg si (drop 1 eI @ drop 1 eJ)) (drop 1 eI @ drop 1 eJ))"
proof -
  define w where "w = drop 1 eI @ drop 1 eJ"
  define ks where "ks = sorted_list_of_set (set w)"
  define items where "items = map (\<lambda>k. (k, count_list w k)) ks"
  have sp: "(if length w \<noteq> 0 then sort_product w else (w, 0)) = (sort w, inversions w)"
    by (cases w) (simp_all add: sort_product_eq)
  have cnt: "Counter (sort w) = items"
    using Counter_sorted[of "sort w"] by (simp add: items_def ks_def count_list_sort)
  have good: "good_key sg si k" if "(k, v) \<in> set items" "v div 2 \<noteq> 0" for k v
    using that assms[of k] by (auto simp: items_def ks_def w_def)
  have dist: "distinct (map fst ([] @ items))"
    by (simp add: items_def ks_def comp_def)
  have col: "collapse sg si items (s, items) =
     Inr (s * prod_list (map (square_of sg si) (filter (\<lambda>k. count_list w k div 2 \<noteq> 0) ks)),
          map (\<lambda>(k, v). (k, v mod 2)) items)" for s
  proof -
    have c1: "collapse sg si items (s, items) =
      Inr (s * prod_list (map (\<lambda>(k, v). if v div 2 \<noteq> 0 then square_of sg si k else 1) items),
           fold (\<lambda>(k, v). AList.update k (v mod 2)) items items)"
      by (rule collapse_ok) (rule good)
    have c2: "fold (\<lambda>(k, v). AList.update k (v mod 2)) items items = map (\<lambda>(k, v). (k, v mod 2)) items"
      using fold_update_values[OF dist, of "\<lambda>v. v mod 2"] by simp
    have c3: "prod_list (map (\<lambda>(k, v). if v div 2 \<noteq> 0 then square_of sg si k else 1) items) =
      prod_list (map (square_of sg si) (filter (\<lambda>k. count_list w k div 2 \<noteq> 0) ks))"
      unfolding items_def by (rule prod_list_squares)
    show ?thesis unfolding c1 c2 c3 ..
  qed
  have str: "concat (map (\<lambda>(key, value). replicate value key) (map (\<lambda>(k, v). (k, v mod 2)) items)) =
     filter (\<lambda>k. odd (count_list w k)) ks"
    unfolding items_def by (rule surviving_digits)
  show ?thesis
    unfolding cayley_entry_def w_def[symmetric] sp Let_def prod.case cnt col sum.case str
    by (simp add: entry_sign_def entry_string_def ks_def odd_iff_mod_2_eq_one)
qed

subsection \<open>Cayley entries when every label is a single digit\<close>

lemma sorted_bits: "sorted (bits d a)"
  using sorted_wrt_filter[of "(\<le>)" "[0..<d]" "bit a"] by (simp add: bits_def)

lemma distinct_bits: "distinct (bits d a)"
  by (simp add: bits_def)

lemma inversions_map:
  "(\<And>x y. x \<in> set xs \<Longrightarrow> y \<in> set xs \<Longrightarrow> f x < f y \<longleftrightarrow> x < y) \<Longrightarrow>
   inversions (map f xs) = inversions xs"
proof (induction xs)
  case Nil
  then show ?case by simp
next
  case (Cons x xs)
  have "filter (\<lambda>y. y < f x) (map f xs) = map f (filter (\<lambda>y. y < x) xs)"
    using Cons.prems by (auto simp: filter_map comp_def intro!: arg_cong[where f = "map f"] filter_cong)
  moreover have "inversions (map f xs) = inversions xs"
    by (rule Cons.IH) (simp add: Cons.prems)
  ultimately show ?case by simp
qed

lemma count_list_distinct: "distinct xs \<Longrightarrow> count_list xs x = (if x \<in> set xs then 1 else 0)"
  by (induction xs) auto

lemma label_mem_iff:
  assumes "single_digit d si" "ei < d"
  shows "label si ei \<in> set (map (label si) (bits d a)) \<longleftrightarrow> bit a ei"
proof
  assume "label si ei \<in> set (map (label si) (bits d a))"
  then obtain ej where ej: "ej < d" "bit a ej" "label si ej = label si ei"
    by (auto simp: set_bits)
  with label_inj[OF assms(1) ej(1) assms(2)] show "bit a ei" by simp
next
  assume "bit a ei"
  with assms(2) show "label si ei \<in> set (map (label si) (bits d a))" by (simp add: set_bits)
qed

lemma sorted_labels:
  assumes "single_digit d si"
  shows "sorted (map (label si) (bits d a))" "distinct (map (label si) (bits d a))"
proof -
  have mono: "label si i \<le> label si j" if "i \<le> j" "i < d" "j < d" for i j
    using that label_less[OF assms that(3,2)] by (simp add: not_less[symmetric])
  have "sorted_wrt (\<lambda>x y. label si x \<le> label si y) (bits d a)"
    by (rule sorted_wrt_mono_rel[OF _ sorted_bits[unfolded sorted_wrt_iff_nth_less[symmetric], of d a]])
       (auto simp: set_bits intro: mono)
  then show "sorted (map (label si) (bits d a))" by (simp add: sorted_map)
  show "distinct (map (label si) (bits d a))"
    unfolding distinct_map
    by (auto simp: distinct_bits set_bits intro!: inj_on_subset[OF label_inj_on[OF assms]])
qed

lemma count_labels:
  assumes "single_digit d si" "ei < d"
  shows "count_list (map (label si) (bits d a)) (label si ei) = (if bit a ei then 1 else 0)"
  using label_mem_iff[OF assms, of a] sorted_labels(2)[OF assms(1), of a]
  by (simp add: count_list_distinct del: set_map)

lemma keys_labels:
  assumes "single_digit d si"
  shows "sorted_list_of_set (set (map (label si) (bits d a) @ map (label si) (bits d b))) =
     map (label si) (bits d (or a b))"
proof -
  have "set (map (label si) (bits d a) @ map (label si) (bits d b)) = set (map (label si) (bits d (or a b)))"
    by (auto simp: set_bits bit_or_iff)
  then show ?thesis
    using sorted_labels[OF assms, of "or a b"]
    by (simp only: sorted_list_of_set.idem_if_sorted_distinct)
qed

lemma bits_filter:
  "(\<And>ei. ei < d \<Longrightarrow> bit c ei \<Longrightarrow> P ei \<longleftrightarrow> bit e ei) \<Longrightarrow> (\<And>ei. bit e ei \<Longrightarrow> bit c ei) \<Longrightarrow>
   filter P (bits d c) = bits d e"
  unfolding bits_def filter_filter by (rule filter_cong) auto

lemma squared_labels:
  assumes "single_digit d si"
  shows "filter (\<lambda>k. count_list (map (label si) (bits d a) @ map (label si) (bits d b)) k div 2 \<noteq> 0)
           (map (label si) (bits d (or a b))) = map (label si) (bits d (and a b))"
proof -
  let ?w = "map (label si) (bits d a) @ map (label si) (bits d b)"
  have "filter (\<lambda>ei. count_list ?w (label si ei) div 2 \<noteq> 0) (bits d (or a b)) = bits d (and a b)"
    by (rule bits_filter) (simp_all add: count_labels[OF assms] bit_and_iff bit_or_iff)
  then show ?thesis by (simp add: filter_map comp_def)
qed

lemma odd_labels:
  assumes "single_digit d si"
  shows "filter (\<lambda>k. odd (count_list (map (label si) (bits d a) @ map (label si) (bits d b)) k))
           (map (label si) (bits d (or a b))) = map (label si) (bits d (xor a b))"
proof -
  let ?w = "map (label si) (bits d a) @ map (label si) (bits d b)"
  have "filter (\<lambda>ei. odd (count_list ?w (label si ei))) (bits d (or a b)) = bits d (xor a b)"
    by (rule bits_filter) (auto simp: count_labels[OF assms] bit_xor_iff bit_or_iff)
  then show ?thesis by (simp add: filter_map comp_def)
qed

lemma np_getitem_nat: "i < length a \<Longrightarrow> np_getitem a (int i) = Inr (a ! i)"
  by (simp add: np_getitem_def Let_def)

lemma label_square:
  assumes "single_digit d si" "ei < d" "length sg = d"
  shows "good_key sg si (label si ei)" "square_of sg si (label si ei) = sg ! ei"
  using int16_label[OF assms(1,2)] np_getitem_nat[of ei sg] assms(2,3)
  by (simp_all add: good_key_def square_of_def)

lemma inversions_labels:
  assumes "single_digit d si"
  shows "inversions (map (label si) (bits d a) @ map (label si) (bits d b)) =
     inversions (bits d a @ bits d b)"
proof -
  have "inversions (map (label si) (bits d a @ bits d b)) = inversions (bits d a @ bits d b)"
    by (rule inversions_map) (auto simp: set_bits label_less[OF assms])
  then show ?thesis by simp
qed

lemma cayley_entry_single:
  assumes "single_digit d si" "length sg = d"
  shows "cayley_entry sg si (blade_name d si a) (blade_name d si b) =
     Inr (inversions (bits d a @ bits d b), blade_sign sg d a b,
          if blade_sign sg d a b \<noteq> 0
          then (if blade_sign sg d a b = - 1 then ''-'' else '''') @ blade_name d si (xor a b)
          else ''0'')"
proof -
  let ?w = "map (label si) (bits d a) @ map (label si) (bits d b)"
  have w: "drop 1 (blade_name d si a) @ drop 1 (blade_name d si b) = ?w"
    by (simp add: blade_name_single[OF assms(1)])
  have good: "good_key sg si k" if "k \<in> set ?w" for k
    using that label_square(1)[OF assms(1) _ assms(2)] by (auto simp: set_bits)
  have "map (square_of sg si) (map (label si) (bits d (and a b))) = map (nth sg) (bits d (and a b))"
    using label_square(2)[OF assms(1) _ assms(2)] by (simp add: set_bits)
  then have sign: "entry_sign sg si ?w = blade_sign sg d a b"
    by (simp only: entry_sign_def blade_sign_def keys_labels[OF assms(1)]
        squared_labels[OF assms(1)] inversions_labels[OF assms(1)])
  have str: "entry_string s ?w =
     (if s \<noteq> 0 then (if s = - 1 then ''-'' else '''') @ blade_name d si (xor a b) else ''0'')" for s
    unfolding entry_string_def keys_labels[OF assms(1)] odd_labels[OF assms(1)]
      blade_name_single[OF assms(1)]
    by simp
  have "cayley_entry sg si (blade_name d si a) (blade_name d si b) =
     Inr (inversions ?w, entry_sign sg si ?w, entry_string (entry_sign sg si ?w) ?w)"
    using cayley_entry_general[of "blade_name d si a" "blade_name d si b" sg si] good
    unfolding w by blast
  then show ?thesis
    by (simp only: sign str inversions_labels[OF assms(1)])
qed

subsection \<open>The table-building loop\<close>

lemma prepare_loop_ok:
  assumes "\<And>eI eJ. (eI, eJ) \<in> set pairs \<Longrightarrow>
     (\<exists>res. cayley_entry sg si eI eJ = Inr res) \<and> eI \<in> fst ` set c2b \<and> eJ \<in> fst ` set c2b"
  shows "\<exists>t'. prepare_loop sg si c2b pairs t = Inr t'"
  using assms
proof (induction pairs arbitrary: t)
  case Nil
  then show ?case by simp
next
  case (Cons a pairs)
  obtain eI eJ where a: "a = (eI, eJ)" by (cases a)
  from Cons.prems[of eI eJ] obtain swaps sign entry where
    e: "cayley_entry sg si eI eJ = Inr (swaps, sign, entry)"
    and k: "eI \<in> fst ` set c2b" "eJ \<in> fst ` set c2b"
    by (auto simp: a)
  from k have "eI \<in> dom (map_of c2b)" "eJ \<in> dom (map_of c2b)"
    by (simp_all only: dom_map_of_conv_image_fst)
  then obtain i j where ij: "map_of c2b eI = Some i" "map_of c2b eJ = Some j"
    by blast
  have "\<exists>t'. prepare_loop sg si c2b pairs u = Inr t'" for u
  proof (rule Cons.IH)
    fix x y
    assume "(x, y) \<in> set pairs"
    then have "(x, y) \<in> set (a # pairs)" by simp
    then show "(\<exists>res. cayley_entry sg si x y = Inr res) \<and> x \<in> fst ` set c2b \<and> y \<in> fst ` set c2b"
      by (rule Cons.prems)
  qed
  with e ij show ?case by (simp add: a getitem_def)
qed

lemma prepare_loop_step:
  assumes "prepare_loop sg si c2b ((eI, eJ) # pairs) t = Inr t'"
  obtains swaps sign entry i j where
    "cayley_entry sg si eI eJ = Inr (swaps, sign, entry)"
    "map_of c2b eI = Some i" "map_of c2b eJ = Some j"
    "prepare_loop sg si c2b pairs
       \<lparr>swaps_arr = (swaps_arr t)((i, j) := int swaps), signs = (signs t)((i, j) := sign),
        cayley = (cayley t)((eI, eJ) \<mapsto> entry)\<rparr> = Inr t'"
proof -
  from assms obtain i where i: "map_of c2b eI = Some i"
    by (cases "map_of c2b eI") (simp_all add: getitem_def)
  from assms i obtain j where j: "map_of c2b eJ = Some j"
    by (cases "map_of c2b eJ") (simp_all add: getitem_def)
  from assms i j obtain res where r: "cayley_entry sg si eI eJ = Inr res"
    by (cases "cayley_entry sg si eI eJ") (simp_all add: getitem_def)
  obtain swaps sign entry where res: "res = (swaps, sign, entry)" by (cases res)
  from assms r res i j have "prepare_loop sg si c2b pairs
       \<lparr>swaps_arr = (swaps_arr t)((i, j) := int swaps), signs = (signs t)((i, j) := sign),
        cayley = (cayley t)((eI, eJ) \<mapsto> entry)\<rparr> = Inr t'"
    by (simp add: getitem_def)
  with r res i j show thesis by (intro that) simp_all
qed

lemma prepare_loop_frame_cayley:
  "prepare_loop sg si c2b pairs t = Inr t' \<Longrightarrow> (eI, eJ) \<notin> set pairs \<Longrightarrow>
   cayley t' (eI, eJ) = cayley t (eI, eJ)"
proof (induction pairs arbitrary: t)
  case Nil
  then show ?case by simp
next
  case (Cons a pairs)
  obtain x y where a: "a = (x, y)" by (cases a)
  from Cons.prems(1)[unfolded a] obtain swaps sign entry k l where
    st: "prepare_loop sg si c2b pairs
         \<lparr>swaps_arr = (swaps_arr t)((k, l) := int swaps), signs = (signs t)((k, l) := sign),
          cayley = (cayley t)((x, y) \<mapsto> entry)\<rparr> = Inr t'"
    by (rule prepare_loop_step)
  from Cons.prems(2) have "(eI, eJ) \<notin> set pairs" "(eI, eJ) \<noteq> (x, y)" by (auto simp: a)
  with Cons.IH[OF st] show ?case by auto
qed

lemma prepare_loop_frame_arrays:
  "prepare_loop sg si c2b pairs t = Inr t' \<Longrightarrow>
   (Some i, Some j) \<notin> (\<lambda>(x, y). (map_of c2b x, map_of c2b y)) ` set pairs \<Longrightarrow>
   signs t' (i, j) = signs t (i, j) \<and> swaps_arr t' (i, j) = swaps_arr t (i, j)"
proof (induction pairs arbitrary: t)
  case Nil
  then show ?case by simp
next
  case (Cons a pairs)
  obtain x y where a: "a = (x, y)" by (cases a)
  from Cons.prems(1)[unfolded a] obtain swaps sign entry k l where
    st: "map_of c2b x = Some k" "map_of c2b y = Some l"
      "prepare_loop sg si c2b pairs
         \<lparr>swaps_arr = (swaps_arr t)((k, l) := int swaps), signs = (signs t)((k, l) := sign),
          cayley = (cayley t)((x, y) \<mapsto> entry)\<rparr> = Inr t'"
    by (rule prepare_loop_step)
  from Cons.prems(2) st(1,2) have
    "(Some i, Some j) \<notin> (\<lambda>(x, y). (map_of c2b x, map_of c2b y)) ` set pairs" "(i, j) \<noteq> (k, l)"
    by (auto simp: a)
  with Cons.IH[OF st(3)] show ?case by auto
qed

lemma prepare_loop_lookup:
  assumes "prepare_loop sg si c2b pairs t = Inr t'" "(eI, eJ) \<in> set pairs"
    "distinct (map (\<lambda>(x, y). (map_of c2b x, map_of c2b y)) pairs)"
  shows "\<exists>swaps sign entry i j.
     cayley_entry sg si eI eJ = Inr (swaps, sign, entry) \<and>
     map_of c2b eI = Some i \<and> map_of c2b eJ = Some j \<and>
     swaps_arr t' (i, j) = int swaps \<and> signs t' (i, j) = sign \<and> cayley t' (eI, eJ) = Some entry"
  using assms
proof (induction pairs arbitrary: t)
  case Nil
  then show ?case by simp
next
  case (Cons a pairs)
  obtain x y where a: "a = (x, y)" by (cases a)
  from Cons.prems(1)[unfolded a] obtain swaps sign entry k l where
    st: "cayley_entry sg si x y = Inr (swaps, sign, entry)"
      "map_of c2b x = Some k" "map_of c2b y = Some l"
      "prepare_loop sg si c2b pairs
         \<lparr>swaps_arr = (swaps_arr t)((k, l) := int swaps), signs = (signs t)((k, l) := sign),
          cayley = (cayley t)((x, y) \<mapsto> entry)\<rparr> = Inr t'"
    by (rule prepare_loop_step)
  from Cons.prems(3) have d: "distinct (map (\<lambda>(x, y). (map_of c2b x, map_of c2b y)) pairs)"
    and fresh: "(Some k, Some l) \<notin> (\<lambda>(x, y). (map_of c2b x, map_of c2b y)) ` set pairs"
    by (simp_all add: a st(2,3))
  show ?case
  proof (cases "(eI, eJ) = (x, y)")
    case True
    have "(x, y) \<notin> set pairs"
    proof
      assume "(x, y) \<in> set pairs"
      then have "(\<lambda>(x, y). (map_of c2b x, map_of c2b y)) (x, y) \<in>
        (\<lambda>(x, y). (map_of c2b x, map_of c2b y)) ` set pairs" by (rule imageI)
      with fresh st(2,3) show False by simp
    qed
    from prepare_loop_frame_cayley[OF st(4) this] prepare_loop_frame_arrays[OF st(4) fresh] True st(1,2,3)
    show ?thesis by simp
  next
    case False
    with Cons.prems(2) have "(eI, eJ) \<in> set pairs" by (auto simp: a)
    from Cons.IH[OF st(4) this d] show ?thesis .
  qed
qed

lemma canon2bin_pairs_distinct:
  "distinct (map (\<lambda>(x, y). (map_of (canon2bin d si) x, map_of (canon2bin d si) y))
     (List.product (map fst (canon2bin d si)) (map fst (canon2bin d si))))"
proof -
  let ?ks = "map fst (canon2bin d si)"
  have inj: "x = y" if "x \<in> set ?ks" "y \<in> set ?ks"
    "map_of (canon2bin d si) x = map_of (canon2bin d si) y" for x y
  proof -
    from that(1) have "x \<in> fst ` set (canon2bin d si)" by simp
    then have "x \<in> dom (map_of (canon2bin d si))" by (simp only: dom_map_of_conv_image_fst)
    then obtain b where b: "map_of (canon2bin d si) x = Some b" by blast
    with that(3) have "map_of (canon2bin d si) y = Some b" by simp
    with b show ?thesis by (rule canon2bin_inj)
  qed
  have "inj_on (\<lambda>(x, y). (map_of (canon2bin d si) x, map_of (canon2bin d si) y)) (set (List.product ?ks ?ks))"
  proof (rule inj_onI)
    fix u v
    assume u: "u \<in> set (List.product ?ks ?ks)" and v: "v \<in> set (List.product ?ks ?ks)"
      and eq: "(case u of (x, y) \<Rightarrow> (map_of (canon2bin d si) x, map_of (canon2bin d si) y)) =
               (case v of (x, y) \<Rightarrow> (map_of (canon2bin d si) x, map_of (canon2bin d si) y))"
    obtain x y where uu: "u = (x, y)" by (cases u)
    obtain x' y' where vv: "v = (x', y')" by (cases v)
    from u v have m: "x \<in> set ?ks" "y \<in> set ?ks" "x' \<in> set ?ks" "y' \<in> set ?ks"
      by (simp_all add: uu vv)
    from eq have e: "map_of (canon2bin d si) x = map_of (canon2bin d si) x'"
      "map_of (canon2bin d si) y = map_of (canon2bin d si) y'"
      by (simp_all add: uu vv)
    from inj[OF m(1,3) e(1)] inj[OF m(2,4) e(2)] show "u = v" by (simp add: uu vv)
  qed
  moreover have "distinct (List.product ?ks ?ks)"
    by (rule distinct_product) (rule distinct_canon2bin)+
  ultimately show ?thesis unfolding distinct_map by (rule conjI[rotated])
qed

lemma prepare_lookup:
  assumes "prepare_signs_and_cayley sg si (canon2bin d si) = Inr t" "a < 2 ^ d" "b < 2 ^ d"
  shows "\<exists>swaps sign entry i j.
     cayley_entry sg si (blade_name d si a) (blade_name d si b) = Inr (swaps, sign, entry) \<and>
     map_of (canon2bin d si) (blade_name d si a) = Some i \<and>
     map_of (canon2bin d si) (blade_name d si b) = Some j \<and>
     swaps_arr t (i, j) = int swaps \<and> signs t (i, j) = sign \<and>
     cayley t (blade_name d si a, blade_name d si b) = Some entry"
proof -
  have "blade_name d si a \<in> set (map fst (canon2bin d si))"
    "blade_name d si b \<in> set (map fst (canon2bin d si))"
    using assms(2,3) unfolding canon2bin_keys by simp_all
  then have "(blade_name d si a, blade_name d si b) \<in>
     set (List.product (map fst (canon2bin d si)) (map fst (canon2bin d si)))"
    by simp
  from prepare_loop_lookup[OF assms(1)[unfolded prepare_signs_and_cayley_def] this
      canon2bin_pairs_distinct]
  show ?thesis .
qed

lemma prepare_ok:
  assumes "\<And>a b. a < 2 ^ d \<Longrightarrow> b < 2 ^ d \<Longrightarrow>
     \<exists>res. cayley_entry sg si (blade_name d si a) (blade_name d si b) = Inr res"
  shows "\<exists>t. prepare_signs_and_cayley sg si (canon2bin d si) = Inr t"
  unfolding prepare_signs_and_cayley_def
proof (rule prepare_loop_ok)
  fix eI eJ
  assume "(eI, eJ) \<in> set (List.product (map fst (canon2bin d si)) (map fst (canon2bin d si)))"
  then have k: "eI \<in> set (map fst (canon2bin d si))" "eJ \<in> set (map fst (canon2bin d si))"
    by simp_all
  then obtain a b where "a < 2 ^ d" "b < 2 ^ d" "eI = blade_name d si a" "eJ = blade_name d si b"
    unfolding canon2bin_keys by auto
  with assms[of a b] k
  show "(\<exists>res. cayley_entry sg si eI eJ = Inr res) \<and> eI \<in> fst ` set (canon2bin d si) \<and>
        eJ \<in> fst ` set (canon2bin d si)"
    by simp
qed

section \<open>Grades and the blade cache\<close>

subsection \<open>Grades\<close>

lemma bits_nat_rec: "{k. bit (n::nat) k} = (if odd n then {0} else {}) \<union> Suc ` {k. bit (n div 2) k}"
proof (rule set_eqI)
  fix k
  show "k \<in> {k. bit n k} \<longleftrightarrow> k \<in> (if odd n then {0} else {}) \<union> Suc ` {k. bit (n div 2) k}"
    by (cases k) (auto simp: bit_0 bit_Suc)
qed

lemma finite_bits_nat: "finite {k. bit (n::nat) k}"
proof (induction n rule: less_induct)
  case (less n)
  show ?case
  proof (cases "n = 0")
    case True
    then show ?thesis by simp
  next
    case False
    then have "finite {k. bit (n div 2) k}" by (intro less.IH) simp
    then show ?thesis by (subst bits_nat_rec) simp
  qed
qed

lemma popcount_rec: "popcount n = (if odd n then 1 else 0) + popcount (n div 2)"
proof -
  have "card (Suc ` {k. bit (n div 2) k}) = card {k. bit (n div 2) k}"
    by (rule card_image) simp
  moreover have "0 \<notin> Suc ` {k. bit (n div 2) k}" by simp
  ultimately show ?thesis
    unfolding popcount_def by (subst bits_nat_rec) (simp add: finite_bits_nat)
qed

lemma popcount_0 [simp]: "popcount 0 = 0"
  by (simp add: popcount_def)

lemma popcount_1 [simp]: "popcount (Suc 0) = 1"
  using popcount_rec[of "Suc 0"] by simp

lemma count_bin_nat: "count_list (bin_nat n) CHR ''1'' = popcount n"
proof (induction n rule: bin_nat.induct)
  case (1 n)
  show ?case
  proof (cases "n < 2")
    case True
    then have "n = 0 \<or> n = 1" by auto
    then show ?thesis
      by (auto simp: bin_nat.simps[of 0] bin_nat.simps[of 1] bin_nat.simps[of "Suc 0"])
  next
    case False
    with 1 have "count_list (bin_nat (n div 2)) CHR ''1'' = popcount (n div 2)" by simp
    with False show ?thesis
      by (subst bin_nat.simps, subst popcount_rec) (simp add: odd_iff_mod_2_eq_one)
  qed
qed

lemma grade_key_popcount: "grade_key i = popcount i"
  by (simp add: grade_key_def bin_def count_bin_nat)

lemma while_sorted_key:
  "sorted (map key xs) \<Longrightarrow> \<forall>y\<in>set xs. k \<le> key y \<Longrightarrow>
   takeWhile (\<lambda>y. key y = k) xs = filter (\<lambda>y. key y = k) xs \<and>
   dropWhile (\<lambda>y. key y = k) xs = filter (\<lambda>y. key y \<noteq> k) xs"
proof (induction xs)
  case Nil
  then show ?case by simp
next
  case (Cons y ys)
  show ?case
  proof (cases "key y = k")
    case True
    with Cons show ?thesis by simp
  next
    case False
    with Cons.prems have "\<forall>z\<in>set ys. key z \<noteq> k" by fastforce
    with False show ?thesis by (simp add: filter_empty_conv filter_id_conv)
  qed
qed

lemma groupby_keys: "fst ` set (groupby key xs) \<subseteq> key ` set xs"
proof (induction key xs rule: groupby.induct)
  case (1 key)
  then show ?case by simp
next
  case (2 key x xs)
  then show ?case by (auto dest: set_dropWhileD)
qed

lemma concat_groupby: "concat (map snd (groupby key xs)) = xs"
  by (induction key xs rule: groupby.induct) simp_all

lemma groupby_sorted:
  fixes key :: "'a \<Rightarrow> 'k::linorder"
  assumes "sorted (map key xs)"
  shows "distinct (map fst (groupby key xs)) \<and>
     map_of (groupby key xs) g =
       (if g \<in> key ` set xs then Some (filter (\<lambda>x. key x = g) xs) else None)"
  using assms
proof (induction key xs rule: groupby.induct)
  case (1 key)
  then show ?case by simp
next
  case (2 key x xs)
  from "2.prems" have le: "\<forall>y\<in>set xs. key x \<le> key y" and s: "sorted (map key xs)" by simp_all
  note w = while_sorted_key[OF s le]
  let ?rest = "filter (\<lambda>y. key y \<noteq> key x) xs"
  have "sorted (map key ?rest)" using s by (rule sorted_filter)
  with "2.IH" w have IH: "distinct (map fst (groupby key ?rest))"
    "map_of (groupby key ?rest) g =
       (if g \<in> key ` set ?rest then Some (filter (\<lambda>x. key x = g) ?rest) else None)"
    by simp_all
  have fresh: "key x \<notin> fst ` set (groupby key ?rest)"
    using groupby_keys[of key ?rest] by auto
  have f: "filter (\<lambda>z. key z = g) ?rest = filter (\<lambda>z. key z = g) xs" if "g \<noteq> key x"
    using that by (auto intro: filter_cong)
  show ?case
  proof (cases "g = key x")
    case True
    with IH(1) fresh w show ?thesis by (simp add: conj_commute cong: filter_cong)
  next
    case False
    then have "g \<in> key ` set ?rest \<longleftrightarrow> g \<in> key ` set (x # xs)" by auto
    with IH fresh w f[OF False] False show ?thesis by auto
  qed
qed

lemma indices_for_grade_groupby:
  "indices_for_grade d = groupby grade_key (sort_key grade_key [0..<2 ^ d])"
  unfolding indices_for_grade_def
  by (rule dict_of_distinct) (simp add: groupby_sorted)

lemma indices_for_grade_lookup:
  "map_of (indices_for_grade d) g =
     (if g \<in> grade_key ` {0..<2 ^ d} then Some (filter (\<lambda>i. grade_key i = g) [0..<2 ^ d]) else None)"
proof -
  have "sorted (map grade_key (sort_key grade_key [0..<2 ^ d]))" by simp
  from groupby_sorted[OF this, of g] show ?thesis
    by (simp add: indices_for_grade_groupby sort_key_stable)
qed

lemma indices_for_grade_bucket:
  assumes "(g, inds) \<in> set (indices_for_grade d)"
  shows "inds = filter (\<lambda>i. grade_key i = g) [0..<2 ^ d]"
proof -
  have "distinct (map fst (indices_for_grade d))"
    unfolding indices_for_grade_def by (rule distinct_dict_of)
  with assms have "map_of (indices_for_grade d) g = Some inds" by simp
  then show ?thesis by (simp add: indices_for_grade_lookup split: if_splits)
qed

lemma indices_for_grade_own:
  assumes "i < 2 ^ d"
  shows "map_of (indices_for_grade d) (popcount i) = Some (filter (\<lambda>j. popcount j = popcount i) [0..<2 ^ d])"
  using assms by (auto simp: indices_for_grade_lookup grade_key_popcount)

text \<open>
  C5: \<open>indices_for_grade\<close> partitions the indices below \<open>2 ^ d\<close>: every index lies in the
  bucket of its population count and in no other bucket, no bucket repeats an index, no grade
  has two buckets, the buckets together are exactly the indices below \<open>2 ^ d\<close>, and their
  sizes add up to \<open>2 ^ d\<close>.
\<close>

theorem indices_for_grade_partition:
  "(\<forall>i<2 ^ d. (\<exists>inds. getitem (indices_for_grade d) (popcount i) = Inr inds \<and> i \<in> set inds) \<and>
              (\<forall>g inds. getitem (indices_for_grade d) g = Inr inds \<and> i \<in> set inds
                 \<longrightarrow> g = popcount i)) \<and>
   (\<forall>(g, inds)\<in>set (indices_for_grade d). distinct inds) \<and>
   distinct (map fst (indices_for_grade d)) \<and>
   (\<Union>(g, inds)\<in>set (indices_for_grade d). set inds) = {0..<2 ^ d} \<and>
   card (\<Union>(g, inds)\<in>set (indices_for_grade d). set inds) = 2 ^ d \<and>
   sum_list (map (\<lambda>(g, inds). length inds) (indices_for_grade d)) = 2 ^ d"
proof -
  have own: "\<exists>inds. getitem (indices_for_grade d) (popcount i) = Inr inds \<and> i \<in> set inds"
    if "i < 2 ^ d" for i
    using that indices_for_grade_own[OF that] by simp
  have only: "g = popcount i" if "getitem (indices_for_grade d) g = Inr inds" "i \<in> set inds" for i g inds
    using that by (auto simp: indices_for_grade_lookup grade_key_popcount split: if_splits)
  have dist: "distinct inds" if "(g, inds) \<in> set (indices_for_grade d)" for g inds
    using indices_for_grade_bucket[OF that] by simp
  have keys: "distinct (map fst (indices_for_grade d))"
    unfolding indices_for_grade_def by (rule distinct_dict_of)
  have un: "(\<Union>(g, inds)\<in>set (indices_for_grade d). set inds) = {0..<2 ^ d}"
  proof (rule set_eqI, rule iffI)
    fix i
    assume "i \<in> (\<Union>(g, inds)\<in>set (indices_for_grade d). set inds)"
    then obtain g inds where "(g, inds) \<in> set (indices_for_grade d)" "i \<in> set inds" by auto
    with indices_for_grade_bucket[of g inds d] show "i \<in> {0..<2 ^ d}" by simp
  next
    fix i :: nat
    assume "i \<in> {0..<2 ^ d}"
    then have i: "i < 2 ^ d" by simp
    from map_of_SomeD[OF indices_for_grade_own[OF i]] i
    show "i \<in> (\<Union>(g, inds)\<in>set (indices_for_grade d). set inds)" by force
  qed
  have "sum_list (map (\<lambda>(g, inds). length inds) (indices_for_grade d)) =
        length (concat (map snd (indices_for_grade d)))"
    by (simp add: length_concat comp_def case_prod_unfold)
  also have "\<dots> = 2 ^ d"
    by (simp add: indices_for_grade_groupby concat_groupby)
  finally have total: "sum_list (map (\<lambda>(g, inds). length inds) (indices_for_grade d)) = 2 ^ d" .
  have A: "\<forall>i<2 ^ d. (\<exists>inds. getitem (indices_for_grade d) (popcount i) = Inr inds \<and> i \<in> set inds) \<and>
              (\<forall>g inds. getitem (indices_for_grade d) g = Inr inds \<and> i \<in> set inds
                 \<longrightarrow> g = popcount i)"
    using own only by blast
  have B: "\<forall>(g, inds)\<in>set (indices_for_grade d). distinct inds"
    using dist by blast
  have C: "card (\<Union>(g, inds)\<in>set (indices_for_grade d). set inds) = 2 ^ d"
    unfolding un by simp
  show ?thesis by (intro conjI A B keys un C total)
qed

theorem indices_for_grade_partition_witness:
  "(3::nat) < 2 ^ 2 \<and> popcount 3 = 2 \<and>
   (\<exists>inds. getitem (indices_for_grade 2) 2 = Inr inds \<and> 3 \<in> set inds)"
proof -
  have p: "popcount 3 = 2"
    using popcount_rec[of 3] popcount_rec[of 1] by simp
  have "(3::nat) < 2 ^ 2" by simp
  with indices_for_grade_partition[of 2]
  have "\<exists>inds. getitem (indices_for_grade 2) (popcount 3) = Inr inds \<and> 3 \<in> set inds"
    by blast
  with p show ?thesis by simp
qed

subsection \<open>The blade cache\<close>

lemma map_of_update_same: "map_of (AList.update k v al) k = Some v"
  by (simp add: update_conv')

lemma set_update_subset: "set (AList.update k v al) \<subseteq> insert (k, v) (set al)"
  by (induction al) auto

lemma BladeDict_getitem_miss:
  assumes "blade \<notin> fst ` set (blades self)" "map_of c2b blade = Some bin_blade" "bin_blade < 2 ^ d"
  shows "BladeDict_getitem d c2b graded self blade =
     Inr (blade_value d graded bin_blade,
          self\<lparr>blades := AList.update blade (blade_value d graded bin_blade) (blades self)\<rparr>)"
proof (cases graded)
  case True
  have "map_of (indices_for_grade d) (count_list (bin_nat bin_blade) CHR ''1'') =
     Some (filter (\<lambda>j. popcount j = popcount bin_blade) [0..<2 ^ d])"
    using indices_for_grade_own[OF assms(3)] by (simp add: count_bin_nat)
  with True assms(1,2) show ?thesis
    by (simp add: BladeDict_getitem_def getitem_def blade_value_def count_bin_nat map_of_update_same Let_def)
next
  case False
  with assms(1,2) show ?thesis
    by (simp add: BladeDict_getitem_def getitem_def blade_value_def map_of_update_same)
qed

lemma BladeDict_getitem_hit:
  assumes "map_of (blades self) blade = Some mv"
  shows "BladeDict_getitem d c2b graded self blade = Inr (mv, self)"
proof -
  from assms have "blade \<in> fst ` set (blades self)"
    by (metis domI dom_map_of_conv_image_fst)
  with assms show ?thesis by (simp add: BladeDict_getitem_def getitem_def)
qed

lemma BladeDict_getitem_ok:
  assumes "cache_ok d c2b graded self" "map_of c2b blade = Some bin_blade" "bin_blade < 2 ^ d"
  shows "\<exists>self'. BladeDict_getitem d c2b graded self blade = Inr (blade_value d graded bin_blade, self') \<and>
           cache_ok d c2b graded self' \<and> lazy self' = lazy self \<and>
           map_of (blades self') blade = Some (blade_value d graded bin_blade)"
proof (cases "map_of (blades self) blade")
  case None
  then have miss: "blade \<notin> fst ` set (blades self)"
    by (simp add: map_of_eq_None_iff)
  let ?self' = "self\<lparr>blades := AList.update blade (blade_value d graded bin_blade) (blades self)\<rparr>"
  have "cache_ok d c2b graded ?self'"
    using assms(1,2) set_update_subset[of blade "blade_value d graded bin_blade" "blades self"]
    unfolding cache_ok_def by fastforce
  with BladeDict_getitem_miss[OF miss assms(2,3), of graded] show ?thesis
    by (simp add: map_of_update_same)
next
  case (Some mv)
  then have "(blade, mv) \<in> set (blades self)" by (rule map_of_SomeD)
  with assms(1,2) have "mv = blade_value d graded bin_blade" by (auto simp: cache_ok_def)
  with Some BladeDict_getitem_hit[OF Some, of d c2b graded] assms(1) show ?thesis by simp
qed


lemma BladeDict_populate_ok:
  assumes "cache_ok d c2b graded self"
    "\<And>blade. blade \<in> set names \<Longrightarrow> \<exists>bin_blade. map_of c2b blade = Some bin_blade \<and> bin_blade < 2 ^ d"
  shows "\<exists>self'. BladeDict_populate d c2b graded names self = Inr self' \<and>
           cache_ok d c2b graded self' \<and> lazy self' = lazy self"
  using assms
proof (induction names arbitrary: self)
  case Nil
  then show ?case by simp
next
  case (Cons blade names)
  from Cons.prems(2)[of blade] obtain bin_blade where
    b: "map_of c2b blade = Some bin_blade" "bin_blade < 2 ^ d" by auto
  from BladeDict_getitem_ok[OF Cons.prems(1) b] obtain self1 where
    g: "BladeDict_getitem d c2b graded self blade = Inr (blade_value d graded bin_blade, self1)"
    and ok: "cache_ok d c2b graded self1" and lz: "lazy self1 = lazy self"
    by blast
  have "\<exists>self'. BladeDict_populate d c2b graded names self1 = Inr self' \<and>
           cache_ok d c2b graded self' \<and> lazy self' = lazy self1"
    using ok by (rule Cons.IH) (simp add: Cons.prems(2))
  with g lz show ?case by simp
qed

lemma BladeDict_init_ok:
  "\<exists>self. BladeDict_init d (canon2bin d si) graded lazy_flag = Inr self \<and>
          cache_ok d (canon2bin d si) graded self \<and> lazy self = lazy_flag"
proof (cases lazy_flag)
  case True
  then show ?thesis by (simp add: BladeDict_init_def cache_ok_def)
next
  case False
  have "cache_ok d (canon2bin d si) graded \<lparr>lazy = False, blades = []\<rparr>"
    by (simp add: cache_ok_def)
  moreover have "\<exists>bin_blade. map_of (canon2bin d si) blade = Some bin_blade \<and> bin_blade < 2 ^ d"
    if "blade \<in> set (map fst (canon2bin d si))" for blade
  proof -
    from that obtain b where "b < 2 ^ d" "blade = blade_name d si b"
      unfolding canon2bin_keys by auto
    with canon2bin_dom[of b d si] canon2bin_Some(1)[of d si blade] show ?thesis by auto
  qed
  ultimately have "\<exists>self'. BladeDict_populate d (canon2bin d si) graded (map fst (canon2bin d si))
      \<lparr>lazy = False, blades = []\<rparr> = Inr self' \<and>
      cache_ok d (canon2bin d si) graded self' \<and> lazy self' = lazy \<lparr>lazy = False, blades = []\<rparr>"
    by (rule BladeDict_populate_ok)
  with False show ?thesis by (simp add: BladeDict_init_def)
qed







section \<open>Constructed algebras\<close>

subsection \<open>What a constructed algebra holds\<close>

lemma tally_le: "count_list sg 1 + count_list sg (- 1) + count_list sg (0::int) \<le> length sg"
  by (induction sg) auto

lemma tally_eq_iff:
  "count_list sg 1 + count_list sg (- 1) + count_list sg (0::int) = length sg \<longleftrightarrow> set sg \<subseteq> {1, - 1, 0}"
proof (induction sg)
  case Nil
  then show ?case by simp
next
  case (Cons x sg)
  note le = tally_le[of sg]
  show ?case
  proof (cases "x \<in> {1, - 1, 0}")
    case True
    with Cons show ?thesis by auto
  next
    case False
    with le show ?thesis by auto
  qed
qed

lemma Algebra_setup_alt:
  "Algebra_setup p q r sg sio graded =
     (case prepare_signs_and_cayley sg (resolve_start_index r sio)
             (canon2bin (p + q + r) (resolve_start_index r sio)) of
        Inl e \<Rightarrow> Inl e
      | Inr t \<Rightarrow>
         (case BladeDict_init (p + q + r) (canon2bin (p + q + r) (resolve_start_index r sio)) graded
                 (p + q + r > 6) of
            Inl e \<Rightarrow> Inl e
          | Inr bd \<Rightarrow>
             (case BladeDict_getitem (p + q + r) (canon2bin (p + q + r) (resolve_start_index r sio))
                     graded bd
                     (blade_name (p + q + r) (resolve_start_index r sio) (2 ^ (p + q + r) - 1)) of
                Inl e \<Rightarrow> Inl e
              | Inr (mv, bd') \<Rightarrow>
                  Inr \<lparr>alg_p = p, alg_q = q, alg_r = r, alg_d = p + q + r,
                       alg_signature = sg, alg_start_index = resolve_start_index r sio,
                       alg_bin2canon = bin2canon (p + q + r) (resolve_start_index r sio),
                       alg_canon2bin = canon2bin (p + q + r) (resolve_start_index r sio),
                       alg_graded = graded,
                       alg_swaps = swaps_arr t, alg_signs = signs t, alg_cayley = cayley t,
                       alg_blades = bd', alg_pss = mv\<rparr>)))"
proof -
  have top: "getitem (bin2canon (p + q + r) (resolve_start_index r sio)) (2 ^ (p + q + r) - 1) =
     Inr (blade_name (p + q + r) (resolve_start_index r sio) (2 ^ (p + q + r) - 1))"
    using bin2canon_lookup[of "2 ^ (p + q + r) - 1" "p + q + r" "resolve_start_index r sio"] by simp
  show ?thesis
    unfolding Algebra_setup_def Let_def resolve_start_index_def[symmetric] top sum.case ..
qed

lemma Algebra_setup_Inr:
  assumes "Algebra_setup p q r sg sio graded = Inr A"
  shows "alg_p A = p" "alg_q A = q" "alg_r A = r" "alg_d A = p + q + r" "alg_signature A = sg"
    "alg_start_index A = resolve_start_index r sio" "alg_graded A = graded"
    "alg_bin2canon A = bin2canon (p + q + r) (resolve_start_index r sio)"
    "alg_canon2bin A = canon2bin (p + q + r) (resolve_start_index r sio)"
    "prepare_signs_and_cayley sg (resolve_start_index r sio)
       (canon2bin (p + q + r) (resolve_start_index r sio)) =
     Inr \<lparr>swaps_arr = alg_swaps A, signs = alg_signs A, cayley = alg_cayley A\<rparr>"
    "\<exists>bd. BladeDict_init (p + q + r) (canon2bin (p + q + r) (resolve_start_index r sio)) graded
            (p + q + r > 6) = Inr bd \<and>
          BladeDict_getitem (p + q + r) (canon2bin (p + q + r) (resolve_start_index r sio)) graded bd
            (blade_name (p + q + r) (resolve_start_index r sio) (2 ^ (p + q + r) - 1)) =
          Inr (alg_pss A, alg_blades A)"
proof -
  define si where "si = resolve_start_index r sio"
  define d where "d = p + q + r"
  note alt = Algebra_setup_alt[of p q r sg sio graded, folded si_def d_def]
  from assms obtain t where t: "prepare_signs_and_cayley sg si (canon2bin d si) = Inr t"
    unfolding alt by (cases "prepare_signs_and_cayley sg si (canon2bin d si)") simp_all
  from assms obtain bd where bd: "BladeDict_init d (canon2bin d si) graded (d > 6) = Inr bd"
    unfolding alt t sum.case by (cases "BladeDict_init d (canon2bin d si) graded (d > 6)") simp_all
  from assms obtain res where
    res: "BladeDict_getitem d (canon2bin d si) graded bd (blade_name d si (2 ^ d - 1)) = Inr res"
    unfolding alt t bd sum.case
    by (cases "BladeDict_getitem d (canon2bin d si) graded bd (blade_name d si (2 ^ d - 1))") simp_all
  obtain mv bd' where r: "res = (mv, bd')" by (cases res)
  from assms have A: "A = \<lparr>alg_p = p, alg_q = q, alg_r = r, alg_d = d,
      alg_signature = sg, alg_start_index = si,
      alg_bin2canon = bin2canon d si, alg_canon2bin = canon2bin d si, alg_graded = graded,
      alg_swaps = swaps_arr t, alg_signs = signs t, alg_cayley = cayley t,
      alg_blades = bd', alg_pss = mv\<rparr>"
    unfolding alt t bd res r sum.case prod.case by simp
  show "alg_p A = p" "alg_q A = q" "alg_r A = r" "alg_d A = p + q + r" "alg_signature A = sg"
    "alg_start_index A = resolve_start_index r sio" "alg_graded A = graded"
    "alg_bin2canon A = bin2canon (p + q + r) (resolve_start_index r sio)"
    "alg_canon2bin A = canon2bin (p + q + r) (resolve_start_index r sio)"
    by (simp_all add: A si_def d_def)
  show "prepare_signs_and_cayley sg (resolve_start_index r sio)
       (canon2bin (p + q + r) (resolve_start_index r sio)) =
     Inr \<lparr>swaps_arr = alg_swaps A, signs = alg_signs A, cayley = alg_cayley A\<rparr>"
    using t by (simp add: A si_def d_def)
  show "\<exists>bd. BladeDict_init (p + q + r) (canon2bin (p + q + r) (resolve_start_index r sio)) graded
            (p + q + r > 6) = Inr bd \<and>
          BladeDict_getitem (p + q + r) (canon2bin (p + q + r) (resolve_start_index r sio)) graded bd
            (blade_name (p + q + r) (resolve_start_index r sio) (2 ^ (p + q + r) - 1)) =
          Inr (alg_pss A, alg_blades A)"
    using bd res r by (simp add: A si_def d_def)
qed

lemma Algebra_setup_ok:
  assumes "\<exists>t. prepare_signs_and_cayley sg (resolve_start_index r sio)
       (canon2bin (p + q + r) (resolve_start_index r sio)) = Inr t"
  shows "\<exists>A. Algebra_setup p q r sg sio graded = Inr A"
proof -
  define si where "si = resolve_start_index r sio"
  define d where "d = p + q + r"
  note alt = Algebra_setup_alt[of p q r sg sio graded, folded si_def d_def]
  from assms obtain t where t: "prepare_signs_and_cayley sg si (canon2bin d si) = Inr t"
    by (auto simp: si_def d_def)
  from BladeDict_init_ok[of d si graded "d > 6"] obtain bd where
    bd: "BladeDict_init d (canon2bin d si) graded (d > 6) = Inr bd"
    and ok: "cache_ok d (canon2bin d si) graded bd" by blast
  from canon2bin_dom[of "2 ^ d - 1" d si] obtain b where
    b: "map_of (canon2bin d si) (blade_name d si (2 ^ d - 1)) = Some b" by auto
  from BladeDict_getitem_ok[OF ok b canon2bin_Some(1)[OF b]] obtain bd' where
    g: "BladeDict_getitem d (canon2bin d si) graded bd (blade_name d si (2 ^ d - 1)) =
       Inr (blade_value d graded b, bd')" by blast
  show ?thesis unfolding alt t bd g sum.case prod.case by blast
qed

lemma Algebra_init_None:
  "Algebra_init p q r None sio graded = Algebra_setup p q r (default_signature p q r) sio graded"
  by (simp add: Algebra_init_def default_signature_def)

lemma Algebra_init_Some:
  "Algebra_init p q r (Some sg) sio graded =
     (if set sg \<subseteq> {1, - 1, 0}
      then Algebra_setup (count_list sg 1) (count_list sg (- 1)) (count_list sg 0) sg sio graded
      else Inl (TypeError ''Unsupported signature.''))"
  using tally_eq_iff[of sg] by (simp add: Algebra_init_def Let_def)

lemma default_signature_facts:
  "length (default_signature p q r) = p + q + r" "set (default_signature p q r) \<subseteq> {1, - 1, 0}"
  by (auto simp: default_signature_def)

lemma Algebra_init_Inr:
  assumes "Algebra_init p q r sigo sio graded = Inr A"
  obtains p' q' r' sg where "Algebra_setup p' q' r' sg sio graded = Inr A"
    "length sg = p' + q' + r'" "set sg \<subseteq> {1, - 1, 0}"
proof (cases sigo)
  case None
  with assms have "Algebra_setup p q r (default_signature p q r) sio graded = Inr A"
    by (simp add: Algebra_init_None)
  then show ?thesis using default_signature_facts[of p q r] by (rule that)
next
  case (Some sg)
  with assms have ok: "set sg \<subseteq> {1, - 1, 0}"
    and s: "Algebra_setup (count_list sg 1) (count_list sg (- 1)) (count_list sg 0) sg sio graded = Inr A"
    by (simp_all add: Algebra_init_Some split: if_splits)
  from ok have "length sg = count_list sg 1 + count_list sg (- 1) + count_list sg 0"
    by (simp add: tally_eq_iff[symmetric])
  with s show ?thesis using ok by (rule that)
qed

lemma algebra_facts:
  assumes "Algebra_init p q r sigo sio graded = Inr A"
  shows "length (alg_signature A) = alg_d A" "set (alg_signature A) \<subseteq> {1, - 1, 0}"
    "alg_bin2canon A = bin2canon (alg_d A) (alg_start_index A)"
    "alg_canon2bin A = canon2bin (alg_d A) (alg_start_index A)"
    "prepare_signs_and_cayley (alg_signature A) (alg_start_index A)
       (canon2bin (alg_d A) (alg_start_index A)) =
     Inr \<lparr>swaps_arr = alg_swaps A, signs = alg_signs A, cayley = alg_cayley A\<rparr>"
    "alg_graded A = graded" "alg_start_index A = resolve_start_index (alg_r A) sio"
    "alg_d A = alg_p A + alg_q A + alg_r A"
    "\<exists>bd. BladeDict_init (alg_d A) (canon2bin (alg_d A) (alg_start_index A)) graded (alg_d A > 6) = Inr bd \<and>
          BladeDict_getitem (alg_d A) (canon2bin (alg_d A) (alg_start_index A)) graded bd
            (blade_name (alg_d A) (alg_start_index A) (2 ^ alg_d A - 1)) =
          Inr (alg_pss A, alg_blades A)"
proof -
  from assms obtain p' q' r' sg where s: "Algebra_setup p' q' r' sg sio graded = Inr A"
    and sg: "length sg = p' + q' + r'" "set sg \<subseteq> {1, - 1, 0}"
    by (rule Algebra_init_Inr)
  note f = Algebra_setup_Inr[OF s]
  show "length (alg_signature A) = alg_d A" "set (alg_signature A) \<subseteq> {1, - 1, 0}"
    using sg by (simp_all add: f)
  show "alg_bin2canon A = bin2canon (alg_d A) (alg_start_index A)"
    "alg_canon2bin A = canon2bin (alg_d A) (alg_start_index A)"
    "alg_graded A = graded" "alg_start_index A = resolve_start_index (alg_r A) sio"
    "alg_d A = alg_p A + alg_q A + alg_r A"
    by (simp_all add: f)
  show "prepare_signs_and_cayley (alg_signature A) (alg_start_index A)
       (canon2bin (alg_d A) (alg_start_index A)) =
     Inr \<lparr>swaps_arr = alg_swaps A, signs = alg_signs A, cayley = alg_cayley A\<rparr>"
    using f(10) by (simp only: f(4,5,6))
  show "\<exists>bd. BladeDict_init (alg_d A) (canon2bin (alg_d A) (alg_start_index A)) graded (alg_d A > 6) = Inr bd \<and>
          BladeDict_getitem (alg_d A) (canon2bin (alg_d A) (alg_start_index A)) graded bd
            (blade_name (alg_d A) (alg_start_index A) (2 ^ alg_d A - 1)) =
          Inr (alg_pss A, alg_blades A)"
    using f(11) by (simp only: f(4,6))
qed

lemma algebra_tables:
  assumes "Algebra_init p q r sigo sio graded = Inr A"
    "single_digit (alg_d A) (alg_start_index A)" "a < 2 ^ alg_d A" "b < 2 ^ alg_d A"
  shows "alg_swaps A (a, b) = int (inversions (bits (alg_d A) a @ bits (alg_d A) b))"
    "alg_signs A (a, b) = blade_sign (alg_signature A) (alg_d A) a b"
    "alg_cayley A (blade_name (alg_d A) (alg_start_index A) a, blade_name (alg_d A) (alg_start_index A) b) =
       Some (if blade_sign (alg_signature A) (alg_d A) a b \<noteq> 0
             then (if blade_sign (alg_signature A) (alg_d A) a b = - 1 then ''-'' else '''') @
                  blade_name (alg_d A) (alg_start_index A) (xor a b)
             else ''0'')"
proof -
  note f = algebra_facts[OF assms(1)]
  from prepare_lookup[OF f(5) assms(3,4)] obtain swaps sign entry i j where
    l: "cayley_entry (alg_signature A) (alg_start_index A)
          (blade_name (alg_d A) (alg_start_index A) a) (blade_name (alg_d A) (alg_start_index A) b) =
        Inr (swaps, sign, entry)"
      "map_of (canon2bin (alg_d A) (alg_start_index A)) (blade_name (alg_d A) (alg_start_index A) a) = Some i"
      "map_of (canon2bin (alg_d A) (alg_start_index A)) (blade_name (alg_d A) (alg_start_index A) b) = Some j"
      "alg_swaps A (i, j) = int swaps" "alg_signs A (i, j) = sign"
      "alg_cayley A (blade_name (alg_d A) (alg_start_index A) a,
                    blade_name (alg_d A) (alg_start_index A) b) = Some entry"
    by auto
  from l(2,3) canon2bin_single[OF assms(2,3)] canon2bin_single[OF assms(2,4)]
  have ij: "i = a" "j = b" by simp_all
  note e = cayley_entry_single[OF assms(2) f(1), of a b]
  from l(1)[unfolded e] have
    "swaps = inversions (bits (alg_d A) a @ bits (alg_d A) b)"
    "sign = blade_sign (alg_signature A) (alg_d A) a b"
    "entry = (if blade_sign (alg_signature A) (alg_d A) a b \<noteq> 0
             then (if blade_sign (alg_signature A) (alg_d A) a b = - 1 then ''-'' else '''') @
                  blade_name (alg_d A) (alg_start_index A) (xor a b)
             else ''0'')"
    by (simp_all only: sum.inject prod.inject) blast+
  with l(4,5,6) ij
  show "alg_swaps A (a, b) = int (inversions (bits (alg_d A) a @ bits (alg_d A) b))"
    "alg_signs A (a, b) = blade_sign (alg_signature A) (alg_d A) a b"
    "alg_cayley A (blade_name (alg_d A) (alg_start_index A) a, blade_name (alg_d A) (alg_start_index A) b) =
       Some (if blade_sign (alg_signature A) (alg_d A) a b \<noteq> 0
             then (if blade_sign (alg_signature A) (alg_d A) a b = - 1 then ''-'' else '''') @
                  blade_name (alg_d A) (alg_start_index A) (xor a b)
             else ''0'')"
    by (simp_all only:)
qed

subsection \<open>When construction succeeds\<close>

lemma good_labels_name:
  assumes "good_labels d si sg" "k \<in> set (drop 1 (blade_name d si a))"
  shows "good_key sg si k"
proof -
  from assms(2) obtain ei where "ei \<in> set (bits d a)" "k \<in> set (drop 2 (hex (int ei + si)))"
    by (auto simp: blade_name_bits)
  with assms(1) show ?thesis by (auto simp: good_labels_def list_all_iff set_bits)
qed

lemma Algebra_setup_good:
  assumes "good_labels (p + q + r) (resolve_start_index r sio) sg"
  shows "\<exists>A. Algebra_setup p q r sg sio graded = Inr A"
proof (rule Algebra_setup_ok, rule prepare_ok)
  fix a b :: nat
  let ?d = "p + q + r" and ?si = "resolve_start_index r sio"
  have "good_key sg ?si k"
    if "k \<in> set (drop 1 (blade_name ?d ?si a) @ drop 1 (blade_name ?d ?si b))" for k
    using that good_labels_name[OF assms] by auto
  from cayley_entry_general[of "blade_name ?d ?si a" "blade_name ?d ?si b" sg ?si, OF this]
  show "\<exists>res. cayley_entry sg ?si (blade_name ?d ?si a) (blade_name ?d ?si b) = Inr res"
    by blast
qed

lemma good_labels_single:
  assumes "single_digit d si" "length sg = d"
  shows "good_labels d si sg"
proof -
  have "list_all (good_key sg si) (drop 2 (hex (int ei + si)))" if "ei < d" for ei
  proof -
    from that assms(1) have "0 \<le> int ei + si" "int ei + si < 16" by (simp_all add: single_digit_def)
    from hex_digit[OF this] assms(1) have "drop 2 (hex (int ei + si)) = [label si ei]"
      by (simp add: label_def single_digit_def nat_add_distrib)
    with label_square(1)[OF assms(1) that assms(2)] show ?thesis by simp
  qed
  then show ?thesis by (simp add: good_labels_def list_all_iff)
qed

lemma Algebra_init_ok_default:
  assumes "single_digit (p + q + r) (resolve_start_index r sio)"
  shows "\<exists>A. Algebra_init p q r None sio graded = Inr A"
  unfolding Algebra_init_None
  by (rule Algebra_setup_good, rule good_labels_single[OF assms]) (simp add: default_signature_facts)

lemma Algebra_init_ok_explicit:
  assumes "set sg \<subseteq> {1, - 1, 0}" "single_digit (length sg) (resolve_start_index (count_list sg 0) sio)"
  shows "\<exists>A. Algebra_init p q r (Some sg) sio graded = Inr A"
proof -
  from assms(1) have len: "length sg = count_list sg 1 + count_list sg (- 1) + count_list sg 0"
    by (simp add: tally_eq_iff[symmetric])
  have "\<exists>A. Algebra_setup (count_list sg 1) (count_list sg (- 1)) (count_list sg 0) sg sio graded = Inr A"
    by (rule Algebra_setup_good, rule good_labels_single) (use assms(2) len in simp_all)
  with assms(1) show ?thesis by (simp add: Algebra_init_Some)
qed

subsection \<open>Generators and the scalar blade\<close>

lemma bits_zero [simp]: "bits d 0 = []"
  by (simp add: bits_def)

lemma bits_exp: "i < d \<Longrightarrow> bits d (2 ^ i) = [i]"
proof -
  assume "i < d"
  then have "set (bits d (2 ^ i)) = set [i]" by (auto simp: set_bits bit_exp_iff)
  then show ?thesis using sorted_bits[of d "2 ^ i"] distinct_bits[of d "2 ^ i"]
    by (intro sorted_distinct_set_unique) simp_all
qed

lemma blade_name_zero [simp]: "blade_name d si 0 = ''e''"
  by (simp add: blade_name_bits)

lemma xor_exp_nat: "i \<noteq> j \<Longrightarrow> xor ((2::nat) ^ i) (2 ^ j) = 2 ^ i + 2 ^ j"
proof -
  assume "i \<noteq> j"
  then have "and ((2::nat) ^ i) (2 ^ j) = 0"
    by (intro bit_eqI) (auto simp: bit_and_iff bit_exp_iff)
  then show ?thesis by (simp add: disjunctive_add_eq_xor)
qed

lemma and_exp_nat_neq: "i \<noteq> j \<Longrightarrow> and ((2::nat) ^ i) (2 ^ j) = 0"
  by (intro bit_eqI) (auto simp: bit_and_iff bit_exp_iff)

lemma exp_lt: "i < d \<Longrightarrow> (2::nat) ^ i < 2 ^ d"
  by simp

lemma blade_sign_square: "i < d \<Longrightarrow> blade_sign sg d (2 ^ i) (2 ^ i) = sg ! i"
  by (simp add: blade_sign_def bits_exp)

lemma blade_sign_pair:
  "i < d \<Longrightarrow> j < d \<Longrightarrow> i \<noteq> j \<Longrightarrow> blade_sign sg d (2 ^ i) (2 ^ j) = (if i < j then 1 else - 1)"
  by (simp add: blade_sign_def bits_exp and_exp_nat_neq)

lemma blade_sign_scalar: "blade_sign sg d 0 a = 1" "blade_sign sg d a 0 = 1"
  by (simp_all add: blade_sign_def inversions_sorted[OF sorted_bits])

lemma blade_sign_range:
  assumes "set sg \<subseteq> {1, - 1, 0}" "length sg = d"
  shows "blade_sign sg d a b \<in> {- 1, 0, 1}"
proof -
  have "prod_list (map (nth sg) xs) \<in> {- 1, 0, 1}" if "set xs \<subseteq> {0..<d}" for xs
    using that
  proof (induction xs)
    case Nil
    then show ?case by simp
  next
    case (Cons x xs)
    then have "sg ! x \<in> set sg" using assms(2) by simp
    with assms(1) have "sg ! x \<in> {1, - 1, 0}" by blast
    moreover from Cons have "prod_list (map (nth sg) xs) \<in> {- 1, 0, 1}" by simp
    ultimately show ?case by auto
  qed
  have "set (bits d (and a b)) \<subseteq> {0..<d}" by (auto simp: set_bits)
  then have "prod_list (map (nth sg) (bits d (and a b))) \<in> {- 1, 0, 1}"
    by (rule \<open>\<And>xs. set xs \<subseteq> {0..<d} \<Longrightarrow> prod_list (map (nth sg) xs) \<in> {- 1, 0, 1}\<close>)
  then show ?thesis by (auto simp: blade_sign_def)
qed

lemma blade_sign_null:
  assumes "i < d" "bit a i" "bit b i" "sg ! i = 0"
  shows "blade_sign sg d a b = 0"
proof -
  from assms(1,2,3) have "i \<in> set (bits d (and a b))" by (simp add: set_bits bit_and_iff)
  with assms(4) have "0 \<in> set (map (nth sg) (bits d (and a b)))" by force
  then have "prod_list (map (nth sg) (bits d (and a b))) = 0"
    by (simp only: prod_list_zero_iff)
  then show ?thesis by (simp add: blade_sign_def)
qed

section \<open>Properties of the tables\<close>

lemma xor_less_exp:
  assumes "(a::nat) < 2 ^ d" "b < 2 ^ d"
  shows "xor a b < 2 ^ d"
proof -
  have "take_bit d (xor a b) = xor (take_bit d a) (take_bit d b)" by (rule take_bit_xor)
  also have "\<dots> = xor a b" using assms by (simp add: take_bit_nat_eq_self)
  finally have "take_bit d (xor a b) = xor a b" .
  then show ?thesis by (simp only: take_bit_nat_eq_self_iff)
qed

lemma vga2:
  obtains A where "Algebra_init 2 0 0 None None False = Inr A" "alg_d A = 2"
    "alg_start_index A = 1" "alg_signature A = [1, 1]"
    "alg_bin2canon A = bin2canon 2 1" "alg_canon2bin A = canon2bin 2 1"
proof -
  have "single_digit (2 + 0 + 0) (resolve_start_index 0 None)"
    by (simp add: single_digit_def resolve_start_index_def)
  from Algebra_init_ok_default[OF this, of False] obtain A where
    A: "Algebra_init 2 0 0 None None False = Inr A" by blast
  then have s: "Algebra_setup 2 0 0 (default_signature 2 0 0) None False = Inr A"
    by (simp only: Algebra_init_None)
  note f = Algebra_setup_Inr[OF s]
  have sg: "default_signature 2 0 0 = [1, 1]"
    by (simp add: default_signature_def eval_nat_numeral)
  have si: "resolve_start_index 0 None = 1" by (simp add: resolve_start_index_def)
  from f(4,5,6,8,9) show thesis
    by (intro that[OF A]) (simp_all add: sg si)
qed

lemma vga2_names:
  "blade_name 2 1 0 = ''e''" "blade_name 2 1 1 = ''e1''" "blade_name 2 1 2 = ''e2''"
  "blade_name 2 1 3 = ''e12''" "blade_name 2 1 (Suc 0) = ''e1''"
  by (simp_all add: name_eval)

text \<open>
  C7: with an explicit signature sequence the counts \<open>p\<close>, \<open>q\<close>, \<open>r\<close> are the tallies of its
  \<open>1\<close>, \<open>-1\<close> and \<open>0\<close> entries; when the tallies do not add up to the length of the
  sequence, in particular when it holds a value other than \<open>1\<close>, \<open>-1\<close>, \<open>0\<close>, construction
  stops at once with the error \<^verbatim>\<open>TypeError('Unsupported signature.')\<close> and no algebra is built.
\<close>

theorem explicit_signature_tally:
  "(count_list sg 1 + count_list sg (- 1) + count_list sg 0 \<noteq> length sg \<longrightarrow>
      Algebra_init p q r (Some sg) start_index graded = Inl (TypeError ''Unsupported signature.'')) \<and>
   ((\<exists>x\<in>set sg. x \<notin> {1, - 1, 0}) \<longrightarrow>
      Algebra_init p q r (Some sg) start_index graded = Inl (TypeError ''Unsupported signature.'')) \<and>
   (\<forall>A. Algebra_init p q r (Some sg) start_index graded = Inr A \<longrightarrow>
      alg_p A = count_list sg 1 \<and> alg_q A = count_list sg (- 1) \<and> alg_r A = count_list sg 0 \<and>
      alg_signature A = sg \<and> alg_d A = length sg)"
proof (intro conjI impI allI)
  assume "count_list sg 1 + count_list sg (- 1) + count_list sg 0 \<noteq> length sg"
  then show "Algebra_init p q r (Some sg) start_index graded = Inl (TypeError ''Unsupported signature.'')"
    by (simp add: Algebra_init_def Let_def)
next
  assume "\<exists>x\<in>set sg. x \<notin> {1, - 1, 0}"
  then have "\<not> set sg \<subseteq> {1, - 1, 0}" by blast
  then show "Algebra_init p q r (Some sg) start_index graded = Inl (TypeError ''Unsupported signature.'')"
    by (simp only: Algebra_init_Some if_False)
next
  fix A
  assume A: "Algebra_init p q r (Some sg) start_index graded = Inr A"
  then have ok: "set sg \<subseteq> {1, - 1, 0}"
    and s: "Algebra_setup (count_list sg 1) (count_list sg (- 1)) (count_list sg 0) sg start_index graded = Inr A"
    by (simp_all add: Algebra_init_Some split: if_splits)
  from ok have "length sg = count_list sg 1 + count_list sg (- 1) + count_list sg 0"
    by (simp add: tally_eq_iff[symmetric])
  with Algebra_setup_Inr(1-5)[OF s]
  show "alg_p A = count_list sg 1" "alg_q A = count_list sg (- 1)" "alg_r A = count_list sg 0"
    "alg_signature A = sg" "alg_d A = length sg"
    by simp_all
qed

theorem explicit_signature_tally_witness:
  "Algebra_init 0 0 0 (Some [1, - 1, 0, 2]) None False = Inl (TypeError ''Unsupported signature.'') \<and>
   (\<exists>A. Algebra_init 0 0 0 (Some [1, - 1]) None False = Inr A \<and> alg_p A = 1 \<and> alg_q A = 1 \<and>
        alg_r A = 0 \<and> alg_d A = 2)"
proof -
  have "\<exists>x\<in>set [1, - 1, 0, 2::int]. x \<notin> {1, - 1, 0}" by simp
  with explicit_signature_tally[of "[1, - 1, 0, 2]" 0 0 0 None False]
  have bad: "Algebra_init 0 0 0 (Some [1, - 1, 0, 2]) None False = Inl (TypeError ''Unsupported signature.'')"
    by blast
  have "single_digit (length [1, - 1::int]) (resolve_start_index (count_list [1, - 1::int] 0) None)"
    by (simp add: single_digit_def resolve_start_index_def)
  from Algebra_init_ok_explicit[OF _ this, of 0 0 0 False] obtain A where
    A: "Algebra_init 0 0 0 (Some [1, - 1]) None False = Inr A" by auto
  with explicit_signature_tally[of "[1, - 1]" 0 0 0 None False]
  have "alg_p A = count_list [1, - 1::int] 1 \<and> alg_q A = count_list [1, - 1::int] (- 1) \<and>
        alg_r A = count_list [1, - 1::int] 0 \<and> alg_signature A = [1, - 1] \<and> alg_d A = length [1, - 1::int]"
    by blast
  with A bad show ?thesis by simp
qed

text \<open>
  C1, amended: in an algebra whose generator labels are single hexadecimal digits
  (\<open>0 \<le> start_index\<close> and \<open>start_index + d \<le> 16\<close>), for every generator \<open>i\<close> the Cayley entry
  of \<open>(e_i, e_i)\<close> is the literal zero when \<open>signature[i] = 0\<close>, \<open>e\<close> when it is \<open>1\<close> and
  \<open>-e\<close> when it is \<open>-1\<close>, and the sign table holds \<open>signature[i]\<close> at that diagonal position.
\<close>

theorem generator_square_single_digit:
  assumes "Algebra_init p q r signature start_index graded = Inr A"
    and "0 \<le> alg_start_index A" and "alg_start_index A + int (alg_d A) \<le> 16"
    and "i < alg_d A"
  shows "\<exists>e_i. getitem (alg_bin2canon A) (2 ^ i) = Inr e_i \<and>
           getitem (alg_canon2bin A) e_i = Inr (2 ^ i) \<and>
           alg_signature A ! i \<in> {1, - 1, 0} \<and>
           alg_signs A (2 ^ i, 2 ^ i) = alg_signature A ! i \<and>
           alg_cayley A (e_i, e_i) =
             Some (if alg_signature A ! i = 0 then ''0''
                   else if alg_signature A ! i = 1 then ''e'' else ''-e'')"
proof -
  let ?d = "alg_d A" and ?si = "alg_start_index A"
  note f = algebra_facts[OF assms(1)]
  from assms(2,3) have sd: "single_digit ?d ?si" by (simp add: single_digit_def)
  have lt: "(2::nat) ^ i < 2 ^ ?d" using assms(4) by simp
  note t = algebra_tables[OF assms(1) sd lt lt]
  have "alg_signature A ! i \<in> set (alg_signature A)"
    using f(1) assms(4) by simp
  with f(2) have sg: "alg_signature A ! i \<in> {1, - 1, 0}" by blast
  have "getitem (alg_bin2canon A) (2 ^ i) = Inr (blade_name ?d ?si (2 ^ i))"
    using bin2canon_lookup[OF lt, of ?si] by (simp add: f(3))
  moreover have "getitem (alg_canon2bin A) (blade_name ?d ?si (2 ^ i)) = Inr (2 ^ i)"
    using canon2bin_single[OF sd lt] by (simp add: f(4))
  moreover have "alg_signs A (2 ^ i, 2 ^ i) = alg_signature A ! i"
    using t(2) by (simp add: blade_sign_square[OF assms(4)])
  moreover have "alg_cayley A (blade_name ?d ?si (2 ^ i), blade_name ?d ?si (2 ^ i)) =
      Some (if alg_signature A ! i = 0 then ''0''
            else if alg_signature A ! i = 1 then ''e'' else ''-e'')"
    using t(3) sg by (auto simp: blade_sign_square[OF assms(4)])
  ultimately show ?thesis using sg by blast
qed

theorem generator_square_single_digit_witness:
  "\<exists>A. Algebra_init 2 0 0 None None False = Inr A \<and> alg_signature A ! 0 = 1 \<and>
       getitem (alg_bin2canon A) 1 = Inr ''e1'' \<and> alg_signs A (1, 1) = 1 \<and>
       alg_cayley A (''e1'', ''e1'') = Some ''e''"
proof -
  obtain A where A: "Algebra_init 2 0 0 None None False = Inr A" "alg_d A = 2"
    "alg_start_index A = 1" "alg_signature A = [1, 1]"
    "alg_bin2canon A = bin2canon 2 1" "alg_canon2bin A = canon2bin 2 1"
    by (rule vga2)
  have h: "0 \<le> alg_start_index A" "alg_start_index A + int (alg_d A) \<le> 16" "0 < alg_d A"
    by (simp_all add: A)
  from generator_square_single_digit[OF A(1) h] obtain e_i where
    e: "getitem (alg_bin2canon A) (2 ^ 0) = Inr e_i" "alg_signs A (2 ^ 0, 2 ^ 0) = alg_signature A ! 0"
      "alg_cayley A (e_i, e_i) =
         Some (if alg_signature A ! 0 = 0 then ''0'' else if alg_signature A ! 0 = 1 then ''e'' else ''-e'')"
    by blast
  have n: "getitem (alg_bin2canon A) 1 = Inr ''e1''"
    using bin2canon_lookup[of 1 2 1] by (simp add: A(5) vga2_names)
  with e(1) have "e_i = ''e1''" by simp
  with e n A show ?thesis by simp
qed

text \<open>
  C2, amended: in an algebra whose generator labels are single hexadecimal digits, for distinct
  generators \<open>i \<noteq> j\<close> (whatever their signature entries) the Cayley entries of \<open>(e_i, e_j)\<close>
  and \<open>(e_j, e_i)\<close> name the same blade, the one with exactly the generators \<open>i\<close> and \<open>j\<close>,
  with opposite signs (positive for the pair in increasing order), and the sign-table
  entries are the negatives of each other.
\<close>

theorem generators_anticommute_single_digit:
  assumes "Algebra_init p q r signature start_index graded = Inr A"
    and "0 \<le> alg_start_index A" and "alg_start_index A + int (alg_d A) \<le> 16"
    and "i < alg_d A" and "j < alg_d A" and "i \<noteq> j"
  shows "\<exists>e_i e_j e_ij. getitem (alg_bin2canon A) (2 ^ i) = Inr e_i \<and>
           getitem (alg_bin2canon A) (2 ^ j) = Inr e_j \<and>
           getitem (alg_bin2canon A) (2 ^ i + 2 ^ j) = Inr e_ij \<and>
           alg_cayley A (e_i, e_j) = Some (if i < j then e_ij else ''-'' @ e_ij) \<and>
           alg_cayley A (e_j, e_i) = Some (if j < i then e_ij else ''-'' @ e_ij) \<and>
           alg_signs A (2 ^ i, 2 ^ j) = (if i < j then 1 else - 1) \<and>
           alg_signs A (2 ^ i, 2 ^ j) = - alg_signs A (2 ^ j, 2 ^ i)"
proof -
  let ?d = "alg_d A" and ?si = "alg_start_index A"
  note f = algebra_facts[OF assms(1)]
  from assms(2,3) have sd: "single_digit ?d ?si" by (simp add: single_digit_def)
  have li: "(2::nat) ^ i < 2 ^ ?d" and lj: "(2::nat) ^ j < 2 ^ ?d" using assms(4,5) by simp_all
  have x: "xor ((2::nat) ^ i) (2 ^ j) = 2 ^ i + 2 ^ j" "xor ((2::nat) ^ j) (2 ^ i) = 2 ^ i + 2 ^ j"
    using xor_exp_nat[OF assms(6)] by (simp_all add: xor.commute)
  from xor_less_exp[OF li lj] have lij: "(2::nat) ^ i + 2 ^ j < 2 ^ ?d" by (simp only: x)
  note tij = algebra_tables[OF assms(1) sd li lj]
  note tji = algebra_tables[OF assms(1) sd lj li]
  have sij: "blade_sign (alg_signature A) ?d (2 ^ i) (2 ^ j) = (if i < j then 1 else - 1)"
    by (rule blade_sign_pair[OF assms(4,5,6)])
  have sji: "blade_sign (alg_signature A) ?d (2 ^ j) (2 ^ i) = (if j < i then 1 else - 1)"
    by (rule blade_sign_pair[OF assms(5,4) assms(6)[symmetric]])
  have "getitem (alg_bin2canon A) (2 ^ i) = Inr (blade_name ?d ?si (2 ^ i))"
    "getitem (alg_bin2canon A) (2 ^ j) = Inr (blade_name ?d ?si (2 ^ j))"
    "getitem (alg_bin2canon A) (2 ^ i + 2 ^ j) = Inr (blade_name ?d ?si (2 ^ i + 2 ^ j))"
    using bin2canon_lookup[OF li, of ?si] bin2canon_lookup[OF lj, of ?si]
      bin2canon_lookup[OF lij, of ?si]
    by (simp_all add: f(3))
  moreover have "alg_cayley A (blade_name ?d ?si (2 ^ i), blade_name ?d ?si (2 ^ j)) =
      Some (if i < j then blade_name ?d ?si (2 ^ i + 2 ^ j) else ''-'' @ blade_name ?d ?si (2 ^ i + 2 ^ j))"
    using tij(3) by (simp add: sij x)
  moreover have "alg_cayley A (blade_name ?d ?si (2 ^ j), blade_name ?d ?si (2 ^ i)) =
      Some (if j < i then blade_name ?d ?si (2 ^ i + 2 ^ j) else ''-'' @ blade_name ?d ?si (2 ^ i + 2 ^ j))"
    using tji(3) by (simp add: sji x)
  moreover have "alg_signs A (2 ^ i, 2 ^ j) = (if i < j then 1 else - 1)"
    using tij(2) by (simp only: sij)
  moreover have "alg_signs A (2 ^ i, 2 ^ j) = - alg_signs A (2 ^ j, 2 ^ i)"
    using tij(2) tji(2) assms(6) by (auto simp: sij sji)
  ultimately show ?thesis by blast
qed

theorem generators_anticommute_single_digit_witness:
  "\<exists>A. Algebra_init 2 0 0 None None False = Inr A \<and>
       alg_cayley A (''e1'', ''e2'') = Some ''e12'' \<and> alg_cayley A (''e2'', ''e1'') = Some ''-e12'' \<and>
       alg_signs A (1, 2) = 1 \<and> alg_signs A (2, 1) = - 1"
proof -
  obtain A where A: "Algebra_init 2 0 0 None None False = Inr A" "alg_d A = 2"
    "alg_start_index A = 1" "alg_signature A = [1, 1]"
    "alg_bin2canon A = bin2canon 2 1" "alg_canon2bin A = canon2bin 2 1"
    by (rule vga2)
  have h: "0 \<le> alg_start_index A" "alg_start_index A + int (alg_d A) \<le> 16"
    "0 < alg_d A" "1 < alg_d A" "(0::nat) \<noteq> 1"
    by (simp_all add: A)
  from generators_anticommute_single_digit[OF A(1) h] obtain e_i e_j e_ij where
    e: "getitem (alg_bin2canon A) (2 ^ 0) = Inr e_i" "getitem (alg_bin2canon A) (2 ^ 1) = Inr e_j"
      "getitem (alg_bin2canon A) (2 ^ 0 + 2 ^ 1) = Inr e_ij"
      "alg_cayley A (e_i, e_j) = Some (if (0::nat) < 1 then e_ij else ''-'' @ e_ij)"
      "alg_cayley A (e_j, e_i) = Some (if (1::nat) < 0 then e_ij else ''-'' @ e_ij)"
      "alg_signs A (2 ^ 0, 2 ^ 1) = (if (0::nat) < 1 then 1 else - 1)"
      "alg_signs A (2 ^ 0, 2 ^ 1) = - alg_signs A (2 ^ 1, 2 ^ 0)"
    by blast
  have n: "getitem (alg_bin2canon A) 1 = Inr ''e1''" "getitem (alg_bin2canon A) 2 = Inr ''e2''"
    "getitem (alg_bin2canon A) 3 = Inr ''e12''"
    using bin2canon_lookup[of 1 2 1] bin2canon_lookup[of 2 2 1] bin2canon_lookup[of 3 2 1]
    by (simp_all add: A(5) vga2_names)
  with e(1,2,3) have "e_i = ''e1''" "e_j = ''e2''" "e_ij = ''e12''"
    by (simp_all add: numeral_3_eq_3)
  with e(4,5,6,7) A(1) show ?thesis by simp
qed

text \<open>
  C10, amended: in an algebra whose generator labels are single hexadecimal digits, the scalar
  blade \<open>e\<close> (index 0) is a two-sided identity of the Cayley table: for every canonical blade
  name \<open>b\<close> the entries of \<open>(e, b)\<close> and \<open>(b, e)\<close> are \<open>b\<close> itself with positive sign, the
  sign-table entries are 1 and the swap-table entries are 0.
\<close>

theorem scalar_identity_single_digit:
  assumes "Algebra_init p q r signature start_index graded = Inr A"
    and "0 \<le> alg_start_index A" and "alg_start_index A + int (alg_d A) \<le> 16"
    and "getitem (alg_canon2bin A) b = Inr i"
  shows "getitem (alg_bin2canon A) 0 = Inr ''e'' \<and> getitem (alg_canon2bin A) ''e'' = Inr 0 \<and>
         alg_cayley A (''e'', b) = Some b \<and> alg_cayley A (b, ''e'') = Some b \<and>
         alg_signs A (0, i) = 1 \<and> alg_signs A (i, 0) = 1 \<and>
         alg_swaps A (0, i) = 0 \<and> alg_swaps A (i, 0) = 0"
proof -
  let ?d = "alg_d A" and ?si = "alg_start_index A"
  note f = algebra_facts[OF assms(1)]
  from assms(2,3) have sd: "single_digit ?d ?si" by (simp add: single_digit_def)
  from assms(4) have m: "map_of (canon2bin ?d ?si) b = Some i" by (simp add: f(4))
  note c = canon2bin_Some(1,2)[OF m]
  have z: "(0::nat) < 2 ^ ?d" by simp
  note t0i = algebra_tables[OF assms(1) sd z c(1)]
  note ti0 = algebra_tables[OF assms(1) sd c(1) z]
  have "getitem (alg_bin2canon A) 0 = Inr ''e''"
    using bin2canon_lookup[OF z, of ?si] by (simp add: f(3))
  moreover have "getitem (alg_canon2bin A) ''e'' = Inr 0"
    using canon2bin_single[OF sd z] by (simp add: f(4))
  moreover have "alg_cayley A (''e'', b) = Some b" "alg_cayley A (b, ''e'') = Some b"
    using t0i(3) ti0(3) by (simp_all add: blade_sign_scalar c(2))
  moreover have "alg_signs A (0, i) = 1" "alg_signs A (i, 0) = 1"
    using t0i(2) ti0(2) by (simp_all add: blade_sign_scalar)
  moreover have "alg_swaps A (0, i) = 0" "alg_swaps A (i, 0) = 0"
    using t0i(1) ti0(1) by (simp_all add: inversions_sorted[OF sorted_bits])
  ultimately show ?thesis by blast
qed

theorem scalar_identity_single_digit_witness:
  "\<exists>A. Algebra_init 2 0 0 None None False = Inr A \<and> getitem (alg_canon2bin A) ''e12'' = Inr 3 \<and>
       alg_cayley A (''e'', ''e12'') = Some ''e12'' \<and> alg_cayley A (''e12'', ''e'') = Some ''e12'' \<and>
       alg_signs A (0, 3) = 1 \<and> alg_swaps A (3, 0) = 0"
proof -
  obtain A where A: "Algebra_init 2 0 0 None None False = Inr A" "alg_d A = 2"
    "alg_start_index A = 1" "alg_signature A = [1, 1]"
    "alg_bin2canon A = bin2canon 2 1" "alg_canon2bin A = canon2bin 2 1"
    by (rule vga2)
  have "single_digit 2 1" by (simp add: single_digit_def)
  from canon2bin_single[OF this, of 3] have k: "getitem (alg_canon2bin A) ''e12'' = Inr 3"
    by (simp add: A(6) vga2_names)
  have h: "0 \<le> alg_start_index A" "alg_start_index A + int (alg_d A) \<le> 16"
    by (simp_all add: A)
  from scalar_identity_single_digit[OF A(1) h k] A(1) k show ?thesis by blast
qed

text \<open>
  C4, amended: in an algebra whose generator labels are single hexadecimal digits, for every
  ordered pair of canonical blade names the sign-table entry lies in \<open>{-1, 0, 1}\<close> and the
  Cayley entry is the literal zero (exactly when the sign is 0) or the name that \<open>bin2canon\<close>
  gives to the blade with the symmetric difference of the two generator sets, with a single
  leading minus sign exactly when the sign is \<open>-1\<close>; the digits of that name are sorted.
\<close>

theorem cayley_entries_canonical_single_digit:
  assumes "Algebra_init p q r signature start_index graded = Inr A"
    and "0 \<le> alg_start_index A" and "alg_start_index A + int (alg_d A) \<le> 16"
    and "eI \<in> fst ` set (alg_canon2bin A)" and "eJ \<in> fst ` set (alg_canon2bin A)"
  shows "\<exists>i j c. getitem (alg_canon2bin A) eI = Inr i \<and> getitem (alg_canon2bin A) eJ = Inr j \<and>
           alg_signs A (i, j) \<in> {- 1, 0, 1} \<and>
           getitem (alg_bin2canon A) (xor i j) = Inr c \<and> sorted (tl c) \<and>
           alg_cayley A (eI, eJ) =
             Some (if alg_signs A (i, j) = 0 then ''0''
                   else if alg_signs A (i, j) = - 1 then ''-'' @ c else c)"
proof -
  let ?d = "alg_d A" and ?si = "alg_start_index A"
  note f = algebra_facts[OF assms(1)]
  from assms(2,3) have sd: "single_digit ?d ?si" by (simp add: single_digit_def)
  from assms(4,5) have "eI \<in> dom (map_of (canon2bin ?d ?si))" "eJ \<in> dom (map_of (canon2bin ?d ?si))"
    by (simp_all only: f(4) dom_map_of_conv_image_fst)
  then obtain i j where m: "map_of (canon2bin ?d ?si) eI = Some i" "map_of (canon2bin ?d ?si) eJ = Some j"
    by blast
  note ci = canon2bin_Some(1,2)[OF m(1)] and cj = canon2bin_Some(1,2)[OF m(2)]
  note t = algebra_tables[OF assms(1) sd ci(1) cj(1)]
  let ?s = "blade_sign (alg_signature A) ?d i j"
  have r: "?s \<in> {- 1, 0, 1}" by (rule blade_sign_range[OF f(2,1)])
  have "getitem (alg_canon2bin A) eI = Inr i" "getitem (alg_canon2bin A) eJ = Inr j"
    using m by (simp_all add: f(4))
  moreover have "alg_signs A (i, j) \<in> {- 1, 0, 1}" using r by (simp only: t(2))
  moreover have "getitem (alg_bin2canon A) (xor i j) = Inr (blade_name ?d ?si (xor i j))"
    using bin2canon_lookup[OF xor_less_exp[OF ci(1) cj(1)], of ?si] by (simp add: f(3))
  moreover have "sorted (tl (blade_name ?d ?si (xor i j)))"
    using sorted_labels(1)[OF sd, of "xor i j"] by (simp add: blade_name_single[OF sd])
  moreover have "alg_cayley A (eI, eJ) =
      Some (if alg_signs A (i, j) = 0 then ''0''
            else if alg_signs A (i, j) = - 1 then ''-'' @ blade_name ?d ?si (xor i j)
            else blade_name ?d ?si (xor i j))"
    using t(3) r unfolding ci(2) cj(2) t(2) by auto
  ultimately show ?thesis by blast
qed

theorem cayley_entries_canonical_single_digit_witness:
  "\<exists>A. Algebra_init 2 0 0 None None False = Inr A \<and> ''e2'' \<in> fst ` set (alg_canon2bin A) \<and>
       ''e12'' \<in> fst ` set (alg_canon2bin A) \<and>
       (\<exists>i j c. getitem (alg_canon2bin A) ''e2'' = Inr i \<and> getitem (alg_canon2bin A) ''e12'' = Inr j \<and>
          alg_signs A (i, j) \<in> {- 1, 0, 1} \<and> getitem (alg_bin2canon A) (xor i j) = Inr c \<and>
          alg_cayley A (''e2'', ''e12'') =
            Some (if alg_signs A (i, j) = 0 then ''0''
                  else if alg_signs A (i, j) = - 1 then ''-'' @ c else c))"
proof -
  obtain A where A: "Algebra_init 2 0 0 None None False = Inr A" "alg_d A = 2"
    "alg_start_index A = 1" "alg_signature A = [1, 1]"
    "alg_bin2canon A = bin2canon 2 1" "alg_canon2bin A = canon2bin 2 1"
    by (rule vga2)
  have "blade_name 2 1 2 \<in> blade_name 2 1 ` {0..<2 ^ 2}" "blade_name 2 1 3 \<in> blade_name 2 1 ` {0..<2 ^ 2}"
    by (rule imageI, simp)+
  then have k: "''e2'' \<in> fst ` set (alg_canon2bin A)" "''e12'' \<in> fst ` set (alg_canon2bin A)"
    using canon2bin_keys[of 2 1] by (simp_all add: A(6) vga2_names)
  have h: "0 \<le> alg_start_index A" "alg_start_index A + int (alg_d A) \<le> 16"
    by (simp_all add: A)
  from cayley_entries_canonical_single_digit[OF A(1) h k] A(1) k show ?thesis by blast
qed

subsection \<open>An algebra with a two-character label\<close>

lemma good_key_eval:
  "good_key sg si k \<longleftrightarrow>
     (case int16 k of Inl e \<Rightarrow> False
      | Inr n \<Rightarrow> (case np_getitem sg (n - si) of Inl e \<Rightarrow> False | Inr s \<Rightarrow> True))"
  by (auto simp: good_key_def split: sum.splits)

lemma algebra_9_8:
  obtains A where "algebra_9_8 = Inr A" "alg_d A = 9" "alg_start_index A = 8"
    "alg_signature A = replicate 9 1"
proof -
  have sg: "default_signature 9 0 0 = replicate 9 1" by (simp add: default_signature_def)
  have si: "resolve_start_index 0 (Some 8) = 8" by (simp add: resolve_start_index_def)
  have "good_labels 9 8 (replicate 9 1)"
    by (simp add: good_labels_def upt_rec hex_def hex_nat.simps hexdigit_def good_key_eval
        int16_def np_getitem_def Let_def)
  then have "good_labels (9 + 0 + 0) (resolve_start_index 0 (Some 8)) (default_signature 9 0 0)"
    by (simp add: sg si)
  from Algebra_setup_good[OF this, of False] obtain A where
    s: "Algebra_setup 9 0 0 (default_signature 9 0 0) (Some 8) False = Inr A" by blast
  then have A: "algebra_9_8 = Inr A" by (simp only: Algebra_init_None)
  from Algebra_setup_Inr(4,5,6)[OF s] show thesis
    by (intro that[OF A]) (simp_all add: sg si)
qed

lemma algebra_9_8_cayley:
  assumes "algebra_9_8 = Inr A" "a < 2 ^ 9" "b < 2 ^ 9"
    "cayley_entry (replicate 9 1) 8 (blade_name 9 8 a) (blade_name 9 8 b) = Inr (swaps, sign, entry)"
  shows "alg_cayley A (blade_name 9 8 a, blade_name 9 8 b) = Some entry"
proof -
  from assms(1) have s: "Algebra_setup 9 0 0 (default_signature 9 0 0) (Some 8) False = Inr A"
    by (simp only: Algebra_init_None)
  have sg: "default_signature 9 0 0 = replicate 9 1" by (simp add: default_signature_def)
  have si: "resolve_start_index 0 (Some 8) = 8" by (simp add: resolve_start_index_def)
  from Algebra_setup_Inr(10)[OF s] have
    "prepare_signs_and_cayley (replicate 9 1) 8 (canon2bin 9 8) =
       Inr \<lparr>swaps_arr = alg_swaps A, signs = alg_signs A, cayley = alg_cayley A\<rparr>"
    by (simp add: sg si)
  from prepare_lookup[OF this assms(2,3)] assms(4) show ?thesis by auto
qed

lemma names_9_8:
  "blade_name 9 8 0 = ''e''" "blade_name 9 8 1 = ''e8''" "blade_name 9 8 256 = ''e10''"
  "blade_name 9 8 (Suc 0) = ''e8''"
  by (simp_all add: name_eval)

lemmas entry_eval = cayley_entry_def sort_product_def sort_loop.simps bubble_pass_def upt_rec
  Counter_def int16_def np_getitem_def Let_def

lemma entries_9_8:
  "cayley_entry (replicate 9 1) 8 ''e10'' ''e10'' = Inr (3, - 1, ''-e'')"
  "cayley_entry (replicate 9 1) 8 ''e'' ''e10'' = Inr (1, - 1, ''-e01'')"
  "cayley_entry (replicate 9 1) 8 ''e8'' ''e10'' = Inr (3, - 1, ''-e018'')"
  "cayley_entry (replicate 9 1) 8 ''e10'' ''e8'' = Inr (1, - 1, ''-e018'')"
  by (simp_all add: entry_eval)

lemma no_zero_label:
  assumes "ei < 8"
  shows "label 8 ei \<noteq> CHR ''0''"
proof
  assume "label 8 ei = CHR ''0''"
  then have "hexdigit (ei + 8) = hexdigit 0" by (simp add: label_def hexdigit_def)
  with assms hexdigit_inj[of "ei + 8" 0] show False by simp
qed

lemma name_9_8_split:
  "blade_name 9 8 b = CHR ''e'' # map (label 8) (bits 8 b) @ (if bit b 8 then ''10'' else [])"
proof -
  have sd: "single_digit 8 8" by (simp add: single_digit_def)
  have "bits 9 b = bits 8 b @ (if bit b 8 then [8] else [])"
    by (simp add: bits_def eval_nat_numeral)
  moreover have "drop 2 (hex (int 8 + 8)) = ''10''"
    by (simp add: hex_def hex_nat.simps hexdigit_def)
  moreover have "CHR ''e'' # concat (map (\<lambda>ei. drop 2 (hex (int ei + 8))) (bits 8 b)) =
      CHR ''e'' # map (label 8) (bits 8 b)"
    using blade_name_single[OF sd, of b] by (simp only: blade_name_bits)
  ultimately show ?thesis by (simp add: blade_name_bits)
qed

lemma e01_not_a_name: "blade_name 9 8 b \<noteq> ''e01''"
proof
  assume eq: "blade_name 9 8 b = ''e01''"
  show False
  proof (cases "bit b 8")
    case True
    with eq have "map (label 8) (bits 8 b) @ ''10'' = ''01''" by (simp add: name_9_8_split)
    then show False by (cases "map (label 8) (bits 8 b)") auto
  next
    case False
    with eq have "map (label 8) (bits 8 b) = ''01''" by (simp add: name_9_8_split)
    then have "CHR ''0'' \<in> set (map (label 8) (bits 8 b))" by simp
    then obtain ei where "ei < 8" "label 8 ei = CHR ''0''" by (auto simp: set_bits)
    with no_zero_label show False by blast
  qed
qed

lemma name_starts_with_e: "hd (blade_name d si b) = CHR ''e''"
  by (simp add: blade_name_bits)

text \<open>
  C1 as stated fails in \<^verbatim>\<open>Algebra(9, start_index=8)\<close>: generator 8 is named \<open>e10\<close> and has
  signature \<open>+1\<close>, but the Cayley entry of \<open>(e10, e10)\<close> is \<open>-e\<close>, not \<open>e\<close>: sorting the
  characters \<open>1, 0, 1, 0\<close> takes three swaps.
\<close>

theorem generator_square_counterexample:
  "\<not> isl algebra_9_8 \<and> alg_signature (projr algebra_9_8) ! 8 = 1 \<and>
   getitem (alg_bin2canon (projr algebra_9_8)) (2 ^ 8) = Inr ''e10'' \<and>
   alg_cayley (projr algebra_9_8) (''e10'', ''e10'') = Some ''-e''"
proof -
  obtain A where A: "algebra_9_8 = Inr A" "alg_d A = 9" "alg_start_index A = 8"
    "alg_signature A = replicate 9 1"
    by (rule algebra_9_8)
  note f = algebra_facts[OF A(1)]
  have "alg_cayley A (blade_name 9 8 256, blade_name 9 8 256) = Some ''-e''"
    by (rule algebra_9_8_cayley[OF A(1)]) (simp_all add: names_9_8 entries_9_8)
  moreover have "getitem (alg_bin2canon A) (2 ^ 8) = Inr ''e10''"
    using bin2canon_lookup[of 256 9 8] by (simp add: f(3) A(2,3) names_9_8)
  ultimately show ?thesis by (simp add: A(1,4) names_9_8)
qed

text \<open>
  C2 as stated fails in \<^verbatim>\<open>Algebra(9, start_index=8)\<close>: the generators 0 and 8, named \<open>e8\<close>
  and \<open>e10\<close>, both have signature \<open>+1\<close>, yet both products carry the same sign: the entries
  of \<open>(e8, e10)\<close> and \<open>(e10, e8)\<close> are both \<open>-e018\<close>.
\<close>

theorem generators_anticommute_counterexample:
  "\<not> isl algebra_9_8 \<and> alg_signature (projr algebra_9_8) ! 0 = 1 \<and>
   alg_signature (projr algebra_9_8) ! 8 = 1 \<and>
   getitem (alg_bin2canon (projr algebra_9_8)) (2 ^ 0) = Inr ''e8'' \<and>
   getitem (alg_bin2canon (projr algebra_9_8)) (2 ^ 8) = Inr ''e10'' \<and>
   alg_cayley (projr algebra_9_8) (''e8'', ''e10'') = Some ''-e018'' \<and>
   alg_cayley (projr algebra_9_8) (''e10'', ''e8'') = Some ''-e018''"
proof -
  obtain A where A: "algebra_9_8 = Inr A" "alg_d A = 9" "alg_start_index A = 8"
    "alg_signature A = replicate 9 1"
    by (rule algebra_9_8)
  note f = algebra_facts[OF A(1)]
  have "alg_cayley A (blade_name 9 8 1, blade_name 9 8 256) = Some ''-e018''"
    by (rule algebra_9_8_cayley[OF A(1)]) (simp_all add: names_9_8 entries_9_8)
  moreover have "alg_cayley A (blade_name 9 8 256, blade_name 9 8 1) = Some ''-e018''"
    by (rule algebra_9_8_cayley[OF A(1)]) (simp_all add: names_9_8 entries_9_8)
  moreover have "getitem (alg_bin2canon A) (2 ^ 8) = Inr ''e10''"
    "getitem (alg_bin2canon A) (2 ^ 0) = Inr ''e8''"
    using bin2canon_lookup[of 256 9 8] bin2canon_lookup[of 1 9 8]
    by (simp_all add: f(3) A(2,3) names_9_8)
  ultimately show ?thesis by (simp add: A(1,4) names_9_8)
qed

text \<open>
  C4 as stated fails in \<^verbatim>\<open>Algebra(9, start_index=8)\<close>: the entry of \<open>(e, e10)\<close> is
  \<open>-e01\<close>, which is not the literal zero, and neither \<open>e01\<close> nor \<open>-e01\<close> is a name of
  \<open>bin2canon\<close>.
\<close>

theorem cayley_entries_canonical_counterexample:
  "\<not> isl algebra_9_8 \<and> ''e'' \<in> fst ` set (alg_canon2bin (projr algebra_9_8)) \<and>
   ''e10'' \<in> fst ` set (alg_canon2bin (projr algebra_9_8)) \<and>
   alg_cayley (projr algebra_9_8) (''e'', ''e10'') = Some ''-e01'' \<and>
   ''e01'' \<notin> snd ` set (alg_bin2canon (projr algebra_9_8)) \<and>
   ''-e01'' \<notin> snd ` set (alg_bin2canon (projr algebra_9_8))"
proof -
  obtain A where A: "algebra_9_8 = Inr A" "alg_d A = 9" "alg_start_index A = 8"
    "alg_signature A = replicate 9 1"
    by (rule algebra_9_8)
  note f = algebra_facts[OF A(1)]
  have c: "alg_cayley A (blade_name 9 8 0, blade_name 9 8 256) = Some ''-e01''"
    by (rule algebra_9_8_cayley[OF A(1)]) (simp_all add: names_9_8 entries_9_8)
  have "blade_name 9 8 0 \<in> blade_name 9 8 ` {0..<2 ^ 9}" "blade_name 9 8 256 \<in> blade_name 9 8 ` {0..<2 ^ 9}"
    by (rule imageI, simp)+
  then have k: "''e'' \<in> fst ` set (alg_canon2bin A)" "''e10'' \<in> fst ` set (alg_canon2bin A)"
    using canon2bin_keys[of 9 8] by (simp_all add: f(4) A(2,3) names_9_8)
  have n1: "''e01'' \<notin> snd ` set (alg_bin2canon A)"
  proof
    assume "''e01'' \<in> snd ` set (alg_bin2canon A)"
    then obtain b where "blade_name 9 8 b = ''e01''" by (auto simp: f(3) A(2,3) bin2canon_def)
    with e01_not_a_name[of b] show False by simp
  qed
  have n2: "''-e01'' \<notin> snd ` set (alg_bin2canon A)"
  proof
    assume "''-e01'' \<in> snd ` set (alg_bin2canon A)"
    then obtain b where "blade_name 9 8 b = ''-e01''" by (auto simp: f(3) A(2,3) bin2canon_def)
    with name_starts_with_e[of 9 8 b] show False by simp
  qed
  from c k n1 n2 show ?thesis by (simp add: A(1) names_9_8)
qed

text \<open>
  C10 as stated fails in \<^verbatim>\<open>Algebra(9, start_index=8)\<close>: multiplying the scalar blade \<open>e\<close>
  with the blade \<open>e10\<close>, from either side, gives the entry \<open>-e01\<close> and not \<open>e10\<close>.
\<close>

theorem scalar_identity_counterexample:
  "\<not> isl algebra_9_8 \<and> ''e10'' \<in> fst ` set (alg_canon2bin (projr algebra_9_8)) \<and>
   getitem (alg_bin2canon (projr algebra_9_8)) 0 = Inr ''e'' \<and>
   alg_cayley (projr algebra_9_8) (''e'', ''e10'') = Some ''-e01'' \<and>
   alg_cayley (projr algebra_9_8) (''e10'', ''e'') = Some ''-e01''"
proof -
  obtain A where A: "algebra_9_8 = Inr A" "alg_d A = 9" "alg_start_index A = 8"
    "alg_signature A = replicate 9 1"
    by (rule algebra_9_8)
  note f = algebra_facts[OF A(1)]
  have e: "cayley_entry (replicate 9 1) 8 ''e10'' ''e'' = Inr (1, - 1, ''-e01'')"
    by (simp add: entry_eval)
  have "alg_cayley A (blade_name 9 8 0, blade_name 9 8 256) = Some ''-e01''"
    by (rule algebra_9_8_cayley[OF A(1)]) (simp_all add: names_9_8 entries_9_8)
  moreover have "alg_cayley A (blade_name 9 8 256, blade_name 9 8 0) = Some ''-e01''"
    by (rule algebra_9_8_cayley[OF A(1)]) (simp_all add: names_9_8 e)
  moreover have "blade_name 9 8 256 \<in> blade_name 9 8 ` {0..<2 ^ 9}" by (rule imageI) simp
  then have "''e10'' \<in> fst ` set (alg_canon2bin A)"
    using canon2bin_keys[of 9 8] by (simp add: f(4) A(2,3) names_9_8)
  moreover have "getitem (alg_bin2canon A) 0 = Inr ''e''"
    using bin2canon_lookup[of 0 9 8] by (simp add: f(3) A(2,3))
  ultimately show ?thesis by (simp add: A(1) names_9_8)
qed

subsection \<open>The blade cache of a constructed algebra\<close>

lemma algebra_blades:
  assumes "Algebra_init p q r sigo sio graded = Inr A"
  shows "cache_ok (alg_d A) (canon2bin (alg_d A) (alg_start_index A)) graded (alg_blades A)"
    "\<exists>b. map_of (canon2bin (alg_d A) (alg_start_index A))
            (blade_name (alg_d A) (alg_start_index A) (2 ^ alg_d A - 1)) = Some b \<and>
         alg_pss A = blade_value (alg_d A) graded b"
proof -
  let ?d = "alg_d A" and ?si = "alg_start_index A"
  note f = algebra_facts[OF assms]
  from f(9) obtain bd where bd: "BladeDict_init ?d (canon2bin ?d ?si) graded (?d > 6) = Inr bd"
    and g: "BladeDict_getitem ?d (canon2bin ?d ?si) graded bd (blade_name ?d ?si (2 ^ ?d - 1)) =
            Inr (alg_pss A, alg_blades A)"
    by blast
  from BladeDict_init_ok[of ?d ?si graded "?d > 6"] bd have ok: "cache_ok ?d (canon2bin ?d ?si) graded bd"
    by auto
  from canon2bin_dom[of "2 ^ ?d - 1" ?d ?si] obtain b where
    b: "map_of (canon2bin ?d ?si) (blade_name ?d ?si (2 ^ ?d - 1)) = Some b" by auto
  from BladeDict_getitem_ok[OF ok b canon2bin_Some(1)[OF b]] g
  have "alg_pss A = blade_value ?d graded b" "cache_ok ?d (canon2bin ?d ?si) graded (alg_blades A)"
    by auto
  with b show "cache_ok ?d (canon2bin ?d ?si) graded (alg_blades A)"
    "\<exists>b. map_of (canon2bin ?d ?si) (blade_name ?d ?si (2 ^ ?d - 1)) = Some b \<and>
         alg_pss A = blade_value ?d graded b"
    by auto
qed



subsection \<open>The projective scenario\<close>

lemma popcount_eval:
  "popcount n = (if n = 0 then 0 else (if odd n then 1 else 0) + popcount (n div 2))"
  using popcount_rec[of n] by simp

lemma popcount_15: "popcount 15 = 4"
  by (simp add: popcount_eval)

lemma grade_4_of_16: "filter (\<lambda>j. popcount j = 4) [0..<16] = [15]"
  by (simp add: upt_rec popcount_eval)

lemma names_4_0:
  "blade_name 4 0 1 = ''e0''" "blade_name 4 0 (Suc 0) = ''e0''" "blade_name 4 0 3 = ''e01''"
  "blade_name 4 0 5 = ''e02''" "blade_name 4 0 15 = ''e0123''"
  by (simp_all add: name_eval)

text \<open>
  C8: the algebra built from \<open>p = 3\<close>, \<open>q = 0\<close>, \<open>r = 1\<close> with no explicit signature or
  \<open>start_index\<close> exists and has \<open>d = 4\<close>, \<open>start_index = 0\<close> and signature \<open>[0, 1, 1, 1]\<close>;
  its pseudoscalar is the blade of index \<open>2 ^ 4 - 1\<close>, named \<open>e0123\<close>, of grade 4; the Cayley
  square of the null generator \<open>e0\<close> is the literal zero, and so is the entry of every pair
  of blades that both contain the null generator.
\<close>

theorem pga_scenario:
  "\<exists>A. Algebra_init 3 0 1 None None graded = Inr A \<and> alg_d A = 4 \<and> alg_start_index A = 0 \<and>
       alg_signature A = [0, 1, 1, 1] \<and>
       getitem (alg_bin2canon A) (2 ^ 4 - 1) = Inr ''e0123'' \<and>
       alg_pss A = (if graded then MultiVector [1] [4] else fromkeysvalues [2 ^ 4 - 1] [1]) \<and>
       popcount (2 ^ 4 - 1) = 4 \<and>
       getitem (alg_bin2canon A) (2 ^ 0) = Inr ''e0'' \<and>
       alg_cayley A (''e0'', ''e0'') = Some ''0'' \<and>
       (\<forall>a<2 ^ 4. \<forall>b<2 ^ 4. bit a 0 \<and> bit b 0 \<longrightarrow>
          (\<exists>eI eJ. getitem (alg_bin2canon A) a = Inr eI \<and> getitem (alg_bin2canon A) b = Inr eJ \<and>
             alg_cayley A (eI, eJ) = Some ''0''))"
proof -
  have si: "resolve_start_index 1 None = 0" "resolve_start_index (Suc 0) None = 0"
    by (simp_all add: resolve_start_index_def)
  have sg: "default_signature 3 0 1 = [0, 1, 1, 1]" "default_signature 3 0 (Suc 0) = [0, 1, 1, 1]"
    by (simp_all add: default_signature_def eval_nat_numeral)
  have sd: "single_digit 4 0" by (simp add: single_digit_def)
  have "single_digit (3 + 0 + 1) (resolve_start_index 1 None)"
    by (simp add: single_digit_def resolve_start_index_def)
  from Algebra_init_ok_default[OF this, of graded] obtain A where
    A: "Algebra_init 3 0 1 None None graded = Inr A" by blast
  then have s: "Algebra_setup 3 0 1 (default_signature 3 0 1) None graded = Inr A"
    by (simp only: Algebra_init_None)
  from Algebra_setup_Inr(4,5,6)[OF s] have
    d: "alg_d A = 4" and sig: "alg_signature A = [0, 1, 1, 1]" and st: "alg_start_index A = 0"
    by (simp_all add: sg si)
  note f = algebra_facts[OF A]
  have sdA: "single_digit (alg_d A) (alg_start_index A)" using sd by (simp add: d st)
  have b2c: "getitem (alg_bin2canon A) a = Inr (blade_name 4 0 a)" if "a < 2 ^ 4" for a
    using bin2canon_lookup[OF that, of 0] by (simp add: f(3) d st)
  have zero: "alg_cayley A (blade_name 4 0 a, blade_name 4 0 b) = Some ''0''"
    if "a < 2 ^ 4" "b < 2 ^ 4" "bit a 0" "bit b 0" for a b
  proof -
    have "blade_sign (alg_signature A) (alg_d A) a b = 0"
      by (rule blade_sign_null[of 0]) (simp_all add: d sig that)
    with algebra_tables(3)[OF A sdA, of a b] that(1,2) show ?thesis by (simp add: d st)
  qed
  have top: "getitem (alg_bin2canon A) (2 ^ 4 - 1) = Inr ''e0123''"
    using b2c[of "2 ^ 4 - 1"] by (simp add: names_4_0)
  from algebra_blades(2)[OF A] obtain b where
    b: "map_of (canon2bin 4 0) (blade_name 4 0 (2 ^ 4 - 1)) = Some b"
    and pss: "alg_pss A = blade_value 4 graded b"
    by (auto simp: d st)
  from canon2bin_single[OF sd, of "2 ^ 4 - 1"] b have "b = 15" by simp
  with pss have pss': "alg_pss A = (if graded then MultiVector [1] [4] else fromkeysvalues [2 ^ 4 - 1] [1])"
    by (simp add: blade_value_def popcount_15 grade_4_of_16)
  have gen: "getitem (alg_bin2canon A) (2 ^ 0) = Inr ''e0''"
    using b2c[of "2 ^ 0"] by (simp add: names_4_0)
  have sq: "alg_cayley A (''e0'', ''e0'') = Some ''0''"
    using zero[of 1 1] by (simp add: names_4_0 bit_0)
  have all: "\<forall>a<2 ^ 4. \<forall>b<2 ^ 4. bit a 0 \<and> bit b 0 \<longrightarrow>
          (\<exists>eI eJ. getitem (alg_bin2canon A) a = Inr eI \<and> getitem (alg_bin2canon A) b = Inr eJ \<and>
             alg_cayley A (eI, eJ) = Some ''0'')"
    using b2c zero by blast
  have pc: "popcount (2 ^ 4 - 1) = 4" using popcount_15 by simp
  from A d st sig top pss' pc gen sq all show ?thesis by blast
qed

theorem pga_scenario_witness:
  "(3::nat) < 2 ^ 4 \<and> (5::nat) < 2 ^ 4 \<and> bit (3::nat) 0 \<and> bit (5::nat) 0 \<and>
   (\<exists>A. Algebra_init 3 0 1 None None False = Inr A \<and> alg_signature A = [0, 1, 1, 1] \<and>
        getitem (alg_bin2canon A) 3 = Inr ''e01'' \<and> getitem (alg_bin2canon A) 5 = Inr ''e02'' \<and>
        alg_cayley A (''e01'', ''e02'') = Some ''0'' \<and> alg_pss A = fromkeysvalues [15] [1])"
proof -
  from pga_scenario[of False] obtain A where
    A: "Algebra_init 3 0 1 None None False = Inr A" "alg_d A = 4" "alg_start_index A = 0"
      "alg_signature A = [0, 1, 1, 1]" "alg_pss A = fromkeysvalues [2 ^ 4 - 1] [1]"
      "\<forall>a<2 ^ 4. \<forall>b<2 ^ 4. bit a 0 \<and> bit b 0 \<longrightarrow>
          (\<exists>eI eJ. getitem (alg_bin2canon A) a = Inr eI \<and> getitem (alg_bin2canon A) b = Inr eJ \<and>
             alg_cayley A (eI, eJ) = Some ''0'')"
    by auto
  have h: "(3::nat) < 2 ^ 4" "(5::nat) < 2 ^ 4" "bit (3::nat) 0" "bit (5::nat) 0"
    by (simp_all add: bit_0)
  with A(6) obtain eI eJ where
    e: "getitem (alg_bin2canon A) 3 = Inr eI" "getitem (alg_bin2canon A) 5 = Inr eJ"
      "alg_cayley A (eI, eJ) = Some ''0''"
    by blast
  note f = algebra_facts[OF A(1)]
  have n: "getitem (alg_bin2canon A) 3 = Inr ''e01''" "getitem (alg_bin2canon A) 5 = Inr ''e02''"
    using bin2canon_lookup[of 3 4 0] bin2canon_lookup[of 5 4 0]
    by (simp_all add: f(3) A(2,3) names_4_0)
  with e(1,2) have "eI = ''e01''" "eJ = ''e02''" by simp_all
  with e(3) n A(1,4,5) h show ?thesis by simp
qed

end
